theory Spec2Isabelle
  imports Complex_Main "HOL-Library.Sublist" "HOL-Library.Multiset"
begin

section \<open>JavaScript strings\<close>

text \<open>
  A JavaScript string is a sequence of code units. The model uses \<^typ>\<open>string\<close> and reads
  a \<^typ>\<open>char\<close> as the code unit of the same number, so it covers the code units below 256.
  Among these, \<open>String.prototype.trim\<close> and the regular-expression class \<open>\s\<close> take
  TAB, LF, VT, FF, CR, SPACE and NBSP as white space.
\<close>

definition isWhiteSpace :: "char \<Rightarrow> bool" where
  "isWhiteSpace c \<longleftrightarrow>
     c \<in> set [CHR 0x09, CHR 0x0A, CHR 0x0B, CHR 0x0C, CHR 0x0D, CHR 0x20, CHR 0xA0]"

definition trim :: "string \<Rightarrow> string" where
  "trim s = rev (dropWhile isWhiteSpace (rev (dropWhile isWhiteSpace s)))"

text \<open>\<open>s.includes(sub)\<close>: some position of \<open>s\<close> starts with \<open>sub\<close>.\<close>

fun includesStr :: "string \<Rightarrow> string \<Rightarrow> bool" where
  "includesStr [] sub = (sub = [])"
| "includesStr (c # cs) sub = (prefix sub (c # cs) \<or> includesStr cs sub)"

text \<open>
  \<open>s.replace(pat, rep)\<close> with a string pattern: the first occurrence of \<open>pat\<close> is
  replaced, the rest of \<open>s\<close> is kept. (The replacement strings of this program hold no
  \<open>$\<close>, so no replacement pattern is expanded.)
\<close>

fun replace :: "string \<Rightarrow> string \<Rightarrow> string \<Rightarrow> string" where
  "replace [] pat rep = (if pat = [] then rep else [])"
| "replace (c # cs) pat rep =
     (if prefix pat (c # cs) then rep @ drop (length pat) (c # cs)
      else c # replace cs pat rep)"

definition startsWith :: "string \<Rightarrow> string \<Rightarrow> bool" where
  "startsWith s p = prefix p s"

text \<open>
  \<open>encodeURIComponent\<close>: the unreserved characters stay, every other code unit is
  written as the percent-escaped bytes of its UTF-8 encoding (one byte below 128, two
  bytes from 128 to 255).
\<close>

definition uriUnreserved :: "char \<Rightarrow> bool" where
  "uriUnreserved c \<longleftrightarrow>
     c \<in> set (''ABCDEFGHIJKLMNOPQRSTUVWXYZabcdefghijklmnopqrstuvwxyz0123456789-_.!~*()''
              @ [CHR 0x27])"

definition hexDigit :: "nat \<Rightarrow> char" where
  "hexDigit n = ''0123456789ABCDEF'' ! (n mod 16)"

definition percentByte :: "nat \<Rightarrow> string" where
  "percentByte b = [CHR ''%'', hexDigit (b div 16), hexDigit b]"

definition encodeUnit :: "char \<Rightarrow> string" where
  "encodeUnit c =
     (let n = (of_char c :: nat) in
      if uriUnreserved c then [c]
      else if n < 128 then percentByte n
      else percentByte (192 + n div 64) @ percentByte (128 + n mod 64))"

definition encodeURIComponent :: "string \<Rightarrow> string" where
  "encodeURIComponent s = concat (map encodeUnit s)"


section \<open>The strategy catalog (VideoPlayer, \<open>STRATEGIES\<close>)\<close>

datatype mode = HLS | NATIVE

record ConnectionStrategy =
  name :: string
  mode :: mode
  transform :: "string \<Rightarrow> string"

definition directTransform :: "string \<Rightarrow> string" where
  "directTransform u =
     (let url = trim u in
      if includesStr url ''output=ts'' then replace url ''output=ts'' ''output=m3u8''
      else if \<not> includesStr url ''.m3u8'' \<and> \<not> includesStr url ''.mp4'' \<and> \<not> includesStr url ''?''
        then url @ ''.m3u8''
      else url)"

definition gateway1Transform :: "string \<Rightarrow> string" where
  "gateway1Transform u =
     (let url = trim u;
          url = (if includesStr url ''output=ts'' then replace url ''output=ts'' ''output=m3u8''
                 else if \<not> includesStr url ''.m3u8'' \<and> \<not> includesStr url ''.mp4''
                         \<and> \<not> includesStr url ''?''
                   then url @ ''.m3u8''
                 else url)
      in ''https://corsproxy.io/?'' @ encodeURIComponent url)"

definition gateway2Transform :: "string \<Rightarrow> string" where
  "gateway2Transform u =
     (let url = trim u;
          url = (if includesStr url ''output=ts'' then replace url ''output=ts'' ''output=m3u8''
                 else url)
      in ''https://api.codetabs.com/v1/proxy?quest='' @ encodeURIComponent url)"

definition nativeTransform :: "string \<Rightarrow> string" where
  "nativeTransform u = trim u"

definition STRATEGIES :: "ConnectionStrategy list" where
  "STRATEGIES =
     [\<lparr>name = ''Direct Connection'', mode = HLS, transform = directTransform\<rparr>,
      \<lparr>name = ''Gateway 1 (Cloud)'', mode = HLS, transform = gateway1Transform\<rparr>,
      \<lparr>name = ''Gateway 2 (Mirror)'', mode = HLS, transform = gateway2Transform\<rparr>,
      \<lparr>name = ''Native Player'', mode = NATIVE, transform = nativeTransform\<rparr>]"

text \<open>
  The initialiser of \<open>strategyIndex\<close>. The hosting context is \<open>window.location.protocol\<close>,
  or \<open>None\<close> where there is no \<open>window\<close>.
\<close>

definition initialStrategyIndex :: "string option \<Rightarrow> string \<Rightarrow> nat" where
  "initialStrategyIndex window url =
     (case window of
        None \<Rightarrow> 0
      | Some protocol \<Rightarrow> if protocol = ''https:'' \<and> startsWith url ''http:'' then 1 else 0)"



section \<open>The connection controller (VideoPlayer)\<close>

text \<open>
  The component's props \<open>url\<close> and \<open>minimal\<close>, its state variables, its refs, the part
  of the video element its decisions read, the clock and the pending \<open>setTimeout\<close>
  callbacks form the session. Calls made on the sink (the \<open>Hls\<close> instance and the video
  element) are appended to \<open>sinkLog\<close>. The playback position belongs to the sink:
  \<open>video.currentTime += 0.5\<close> is a read, a double-precision addition and an assignment
  through the element's setter, and the model records it as the call
  \<open>VideoCurrentTimeAdd\<close> with its increment, without computing the position that results.
  The state that only drives the display (controls, mute, the mirrored clock and duration)
  is left out.
\<close>

datatype ErrorType = NETWORK_ERROR | MEDIA_ERROR | KEY_SYSTEM_ERROR | MUX_ERROR | OTHER_ERROR

datatype SinkCall =
    HlsLoadSource string
  | HlsAttachMedia
  | HlsStartLoad
  | HlsRecoverMediaError
  | HlsDestroy
  | VideoSetSrc string
  | VideoLoad
  | VideoPlay
  | VideoRemoveSrc
  | VideoCurrentTimeAdd real

datatype Timeout = CooldownReset | NativeErrorEscalate

record Session =
  url :: string
  minimal :: bool
  hlsSupported :: bool
  strategyIndex :: nat
  retryCount :: nat
  isReconnecting :: bool
  isLoading :: bool
  isPlaying :: bool
  error :: "string option"
  debugMsg :: string
  hlsRef :: "string option"
  nativeErrorListener :: bool
  watchdogLoading :: bool
  videoPaused :: bool
  videoReadyState :: nat
  now :: nat
  timers :: "(nat \<times> Timeout) list"
  sinkLog :: "SinkCall list"
  crashed :: bool

text \<open>A number inside a template literal: the decimal digits of a natural number.\<close>

fun natToString :: "nat \<Rightarrow> string" where
  "natToString n =
     (if n < 10 then [char_of (48 + n)]
      else natToString (n div 10) @ [char_of (48 + n mod 10)])"

declare natToString.simps [simp del]

text \<open>
  \<open>STRATEGIES[i]\<close>: out of range the read gives \<open>undefined\<close>, and the effect that uses
  it throws.
\<close>

definition strategyAt :: "nat \<Rightarrow> ConnectionStrategy option" where
  "strategyAt i = (if i < length STRATEGIES then Some (STRATEGIES ! i) else None)"

text \<open>
  \<open>handleStall\<close>: the nudge. With an \<open>Hls\<close> instance in \<open>hlsRef\<close> it does
  \<open>video.currentTime += 0.5\<close> and calls \<open>recoverMediaError\<close>; without one nothing is
  done.
\<close>

definition handleStall :: "Session \<Rightarrow> Session" where
  "handleStall s =
     (if hlsRef s \<noteq> None
      then s\<lparr>sinkLog := sinkLog s @ [VideoCurrentTimeAdd 0.5, HlsRecoverMediaError]\<rparr>
      else s)"

text \<open>
  \<open>attemptNextStrategy\<close>: the updater passed to \<open>setStrategyIndex\<close>, with the state
  changes and the timeout it sets on the way.
\<close>

definition attemptNextStrategy :: "Session \<Rightarrow> Session" where
  "attemptNextStrategy s =
     (let prev = strategyIndex s in
      if prev < length STRATEGIES - 1 then
        (let next = prev + 1 in
         s\<lparr>debugMsg := ''Switching to '' @ (case strategyAt next of
                                               Some st \<Rightarrow> name st | None \<Rightarrow> []) @ ''...'',
           strategyIndex := next\<rparr>)
      else
        s\<lparr>isReconnecting := True,
          timers := timers s @ [(now s + 3000, CooldownReset)]\<rparr>)"

text \<open>The callback of the cooldown timeout.\<close>

definition cooldownReset :: "Session \<Rightarrow> Session" where
  "cooldownReset s =
     s\<lparr>strategyIndex := 0, retryCount := retryCount s + 1, isReconnecting := False\<rparr>"

text \<open>\<open>forceRetry\<close>, the click handler of the Retry Now button.\<close>

definition forceRetry :: "Session \<Rightarrow> Session" where
  "forceRetry s = s\<lparr>error := None, retryCount := 0, isReconnecting := True, strategyIndex := 0\<rparr>"

text \<open>
  Where the Retry Now button is rendered: inside \<open>(error || isReconnecting) && ...\<close>,
  there inside \<open>!minimal && ...\<close>, there inside \<open>!isReconnecting && ...\<close>. A string is
  truthy when it is not empty.
\<close>

definition retryButtonShown :: "Session \<Rightarrow> bool" where
  "retryButtonShown s \<longleftrightarrow>
     ((case error s of None \<Rightarrow> False | Some m \<Rightarrow> m \<noteq> []) \<or> isReconnecting s) \<and>
     \<not> minimal s \<and> \<not> isReconnecting s"

text \<open>
  The main effect. Its cleanup is the function the previous run returned: the run that
  took the native branch returned one that only removes the error listener, the run that
  took the adaptive branch returned the full one.
\<close>

definition effectCleanup :: "Session \<Rightarrow> Session" where
  "effectCleanup s =
     (if nativeErrorListener s then s\<lparr>nativeErrorListener := False\<rparr>
      else
        (let s1 = (if hlsRef s \<noteq> None
                   then s\<lparr>hlsRef := None, sinkLog := sinkLog s @ [HlsDestroy]\<rparr> else s)
         in s1\<lparr>sinkLog := sinkLog s1 @ [VideoRemoveSrc, VideoLoad]\<rparr>))"

text \<open>
  The body of the effect. The watchdog it starts reads \<open>isLoading\<close> of the render the
  effect belongs to, which is the value before \<open>setIsLoading(true)\<close> applies.
\<close>

definition effectBody :: "Session \<Rightarrow> Session" where
  "effectBody s =
     (case strategyAt (strategyIndex s) of
        None \<Rightarrow> s\<lparr>crashed := True\<rparr>
      | Some strategy \<Rightarrow>
          (let s1 = s\<lparr>error := None, isPlaying := False, isLoading := True,
                       debugMsg := (if isReconnecting s
                                    then ''Reconnecting (Attempt '' @ natToString (retryCount s + 1)
                                           @ '')...''
                                    else ''Connecting via '' @ name strategy @ ''...''),
                       watchdogLoading := isLoading s\<rparr>;
               effectiveUrl = transform strategy (url s);
               s2 = (if hlsRef s1 \<noteq> None
                     then s1\<lparr>hlsRef := None, sinkLog := sinkLog s1 @ [HlsDestroy]\<rparr> else s1)
           in if mode strategy = HLS \<and> hlsSupported s
              then s2\<lparr>hlsRef := Some effectiveUrl,
                       sinkLog := sinkLog s2 @ [HlsLoadSource effectiveUrl, HlsAttachMedia]\<rparr>
              else s2\<lparr>nativeErrorListener := True,
                       sinkLog := sinkLog s2 @ [VideoSetSrc effectiveUrl, VideoLoad, VideoPlay]\<rparr>))"

definition playerEffect :: "Session \<Rightarrow> Session" where
  "playerEffect s = effectBody (effectCleanup s)"

text \<open>
  The dependencies of the effect that can change while the player is mounted.
  (\<open>attemptNextStrategy\<close> is rebuilt exactly when \<open>strategyIndex\<close> changes; the props
  \<open>minimal\<close> and \<open>onStateChange\<close> are taken as stable.)
\<close>

definition deps :: "Session \<Rightarrow> string \<times> nat \<times> bool \<times> nat" where
  "deps s = (url s, strategyIndex s, isReconnecting s, retryCount s)"

text \<open>
  One callback runs to completion, its state updates are applied together (batched), and
  the effect runs again when a dependency has changed. An updater function runs once.
\<close>

definition commit :: "Session \<Rightarrow> Session \<Rightarrow> Session" where
  "commit old new = (if deps new = deps old then new else playerEffect new)"

text \<open>Removing the \<open>i\<close>-th pending timeout.\<close>

definition removeTimer :: "nat \<Rightarrow> (nat \<times> Timeout) list \<Rightarrow> (nat \<times> Timeout) list" where
  "removeTimer i ts = take i ts @ drop (Suc i) ts"

datatype Event =
    HlsError bool ErrorType
  | ManifestParsed
  | VideoPlayEvent
  | VideoPause
  | VideoWaiting
  | VideoPlaying
  | VideoError
  | SinkState bool nat
  | WatchdogTick
  | Elapse nat
  | TimerFire nat
  | ForceRetry
  | UrlChange string

text \<open>
  The callbacks. \<open>HlsError fatal type\<close> is the \<open>Hls.Events.ERROR\<close> handler of the attached
  instance, \<open>VideoError\<close> the listener of the native branch, \<open>SinkState\<close> a change of the
  element's \<open>paused\<close> and \<open>readyState\<close>, \<open>WatchdogTick\<close> a tick of the watchdog interval,
  \<open>TimerFire i\<close> the \<open>i\<close>-th pending timeout, which runs only once it is due,
  \<open>ForceRetry\<close> a click on the Retry Now button, possible only where the button is
  rendered, \<open>UrlChange u\<close> the parent rendering the mounted player with another \<open>url\<close>
  (neither the player page nor the dashboard preview gives the player a \<open>key\<close>, so a
  newly selected channel reaches the mounted player this way).
\<close>

fun handler :: "Session \<Rightarrow> Event \<Rightarrow> Session" where
  "handler s (HlsError fatal ty) =
     (if hlsRef s = None \<or> \<not> fatal then s
      else case ty of
             NETWORK_ERROR \<Rightarrow> s\<lparr>sinkLog := sinkLog s @ [HlsStartLoad]\<rparr>
           | MEDIA_ERROR \<Rightarrow> s\<lparr>sinkLog := sinkLog s @ [HlsRecoverMediaError]\<rparr>
           | _ \<Rightarrow> attemptNextStrategy (s\<lparr>sinkLog := sinkLog s @ [HlsDestroy]\<rparr>))"
| "handler s ManifestParsed =
     (if hlsRef s = None then s
      else s\<lparr>debugMsg := ''Live'', isLoading := False, sinkLog := sinkLog s @ [VideoPlay]\<rparr>)"
| "handler s VideoPlayEvent = s\<lparr>isPlaying := True, isLoading := False\<rparr>"
| "handler s VideoPause = s\<lparr>isPlaying := False\<rparr>"
| "handler s VideoWaiting = s\<lparr>isLoading := True\<rparr>"
| "handler s VideoPlaying = s\<lparr>isLoading := False, debugMsg := []\<rparr>"
| "handler s VideoError =
     (if nativeErrorListener s
      then s\<lparr>timers := timers s @ [(now s + 1000, NativeErrorEscalate)]\<rparr>
      else s)"
| "handler s (SinkState paused readyState) =
     s\<lparr>videoPaused := paused, videoReadyState := readyState\<rparr>"
| "handler s WatchdogTick =
     (if \<not> videoPaused s \<and> videoReadyState s < 3 \<and> watchdogLoading s then handleStall s
      else s)"
| "handler s (Elapse dt) = s\<lparr>now := now s + dt\<rparr>"
| "handler s (TimerFire i) =
     (if i < length (timers s) \<and> fst (timers s ! i) \<le> now s
      then (let s1 = s\<lparr>timers := removeTimer i (timers s)\<rparr>
            in case snd (timers s ! i) of
                 CooldownReset \<Rightarrow> cooldownReset s1
               | NativeErrorEscalate \<Rightarrow> attemptNextStrategy s1)
      else s)"
| "handler s ForceRetry = (if retryButtonShown s then forceRetry s else s)"
| "handler s (UrlChange u) = s\<lparr>url := u\<rparr>"

definition step :: "Session \<Rightarrow> Event \<Rightarrow> Session" where
  "step s e = (if crashed s then s else commit s (handler s e))"

definition run :: "Session \<Rightarrow> Event list \<Rightarrow> Session" where
  "run s es = foldl step s es"

text \<open>
  Mounting the player: the initial values of the state variables, then the first run of
  the effect. The clock starts at the mount.
\<close>

definition mount :: "string option \<Rightarrow> bool \<Rightarrow> bool \<Rightarrow> string \<Rightarrow> Session" where
  "mount window supported mini u =
     effectBody
       \<lparr>url = u, minimal = mini, hlsSupported = supported,
        strategyIndex = initialStrategyIndex window u,
        retryCount = 0, isReconnecting = False, isLoading = True, isPlaying = False,
        error = None, debugMsg = [], hlsRef = None, nativeErrorListener = False,
        watchdogLoading = False, videoPaused = True, videoReadyState = 0,
        now = 0, timers = [], sinkLog = [], crashed = False\<rparr>"

text \<open>The recovery primitive the error handler calls for a self-healing category.\<close>

fun recoveryCall :: "ErrorType \<Rightarrow> SinkCall" where
  "recoveryCall NETWORK_ERROR = HlsStartLoad"
| "recoveryCall _ = HlsRecoverMediaError"


section \<open>Watch history (App, \<open>addToHistory\<close>)\<close>

text \<open>
  The fields of \<open>Channel\<close> and \<open>Series\<close> carry a prefix, since a field name is global
  in a theory: \<open>chId\<close> is \<open>Channel.id\<close>, \<open>serId\<close> is \<open>Series.id\<close> and so on. An optional
  field is an \<open>option\<close>.
\<close>

datatype ContentType = LIVE | MOVIE | SERIES

record Channel =
  chId :: string
  chName :: string
  chLogo :: "string option"
  chGroup :: "string option"
  chUrl :: string
  chType :: ContentType

text \<open>
  The updater of \<open>addToHistory\<close>: the new history, which is also what is written to
  local storage.
\<close>

definition addToHistory :: "Channel \<Rightarrow> Channel list \<Rightarrow> Channel list" where
  "addToHistory channel prev =
     (let filtered = filter (\<lambda>c. chId c \<noteq> chId channel) prev;
          newHistory = take 50 (channel # filtered)
      in newHistory)"


section \<open>Series grouping (dataProcessor, \<open>processSeries\<close>)\<close>

record Series =
  serId :: string
  serName :: string
  serCover :: "string option"
  serGroup :: string
  seasons :: "(string \<times> Channel list) list"
  episodeCount :: nat

subsection \<open>The two regular expressions\<close>

text \<open>
  \<open>SERIES_REGEX = /^(.*?)\s?[-_]?\s?S(\d+)\s?E(\d+)/i\<close> and
  \<open>ALT_SERIES_REGEX = /^(.*?)\s?[-_]?\s?(\d+)x(\d+)/i\<close>, matched by backtracking.
  A piece of a pattern maps the input to the list of inputs it can leave, in the order
  the matcher tries them.
\<close>

definition isDigit :: "char \<Rightarrow> bool" where
  "isDigit c \<longleftrightarrow> c \<in> set ''0123456789''"

definition isSep :: "char \<Rightarrow> bool" where
  "isSep c \<longleftrightarrow> c = CHR ''-'' \<or> c = CHR ''_''"

definition isLineTerminator :: "char \<Rightarrow> bool" where
  "isLineTerminator c \<longleftrightarrow> c = CHR 0x0A \<or> c = CHR 0x0D"

text \<open>\<open>X?\<close> for a class \<open>X\<close> of single characters: greedy, so taking the character first.\<close>

fun optChar :: "(char \<Rightarrow> bool) \<Rightarrow> string \<Rightarrow> string list" where
  "optChar p [] = [[]]"
| "optChar p (c # cs) = (if p c then [cs, c # cs] else [c # cs])"

text \<open>A letter under the \<open>i\<close> flag.\<close>

fun letterCI :: "char \<Rightarrow> char \<Rightarrow> string \<Rightarrow> string list" where
  "letterCI lower upper [] = []"
| "letterCI lower upper (c # cs) = (if c = lower \<or> c = upper then [cs] else [])"

text \<open>\<open>(\d+)\<close>: greedy, the longest run of digits first; the capture and the input left.\<close>

definition digitsPlus :: "string \<Rightarrow> (string \<times> string) list" where
  "digitsPlus s =
     map (\<lambda>k. (take k s, drop k s)) (rev [1..<Suc (length (takeWhile isDigit s))])"

text \<open>What follows the first group; the result lists the captures of the second group.\<close>

definition seriesTail :: "string \<Rightarrow> string list" where
  "seriesTail s =
     [season.
        r1 \<leftarrow> optChar isWhiteSpace s, r2 \<leftarrow> optChar isSep r1, r3 \<leftarrow> optChar isWhiteSpace r2,
        r4 \<leftarrow> letterCI CHR ''s'' CHR ''S'' r3, (season, r5) \<leftarrow> digitsPlus r4,
        r6 \<leftarrow> optChar isWhiteSpace r5, r7 \<leftarrow> letterCI CHR ''e'' CHR ''E'' r6,
        (episode, r8) \<leftarrow> digitsPlus r7]"

definition altSeriesTail :: "string \<Rightarrow> string list" where
  "altSeriesTail s =
     [season.
        r1 \<leftarrow> optChar isWhiteSpace s, r2 \<leftarrow> optChar isSep r1, r3 \<leftarrow> optChar isWhiteSpace r2,
        (season, r4) \<leftarrow> digitsPlus r3, r5 \<leftarrow> letterCI CHR ''x'' CHR ''X'' r4,
        (episode, r6) \<leftarrow> digitsPlus r5]"

text \<open>
  \<open>^(.*?)\<close> followed by a tail: the shortest prefix free of line terminators after which
  the tail matches. The result is the pair of the first and the second group.
\<close>

fun lazyPrefix :: "(string \<Rightarrow> string list) \<Rightarrow> string \<Rightarrow> string \<Rightarrow> (string \<times> string) option" where
  "lazyPrefix tail pre [] = (case tail [] of g2 # _ \<Rightarrow> Some (pre, g2) | [] \<Rightarrow> None)"
| "lazyPrefix tail pre (c # cs) =
     (case tail (c # cs) of
        g2 # _ \<Rightarrow> Some (pre, g2)
      | [] \<Rightarrow> if isLineTerminator c then None else lazyPrefix tail (pre @ [c]) cs)"

definition matchName :: "string \<Rightarrow> (string \<times> string) option" where
  "matchName nm =
     (case lazyPrefix seriesTail [] nm of
        Some m \<Rightarrow> Some m
      | None \<Rightarrow> lazyPrefix altSeriesTail [] nm)"

text \<open>\<open>.replace(/[-_]$/, '')\<close>: a separator at the very end is dropped.\<close>

definition dropFinalSep :: "string \<Rightarrow> string" where
  "dropFinalSep s = (if s \<noteq> [] \<and> isSep (last s) then butlast s else s)"

text \<open>
  \<open>parseInt(digits, 10).toString()\<close> goes through a floating-point number, so it is a
  parameter \<open>toSeason\<close> of the model. Below \<open>2^53\<close> it is \<open>decimalNorm\<close>, which drops the
  leading zeros. Its results are numerals (or \<open>Infinity\<close>), never the name of a property
  that an object inherits, so reading \<open>series.seasons[season]\<close> is a plain dictionary
  lookup.
\<close>

definition decimalNorm :: "string \<Rightarrow> string" where
  "decimalNorm ds =
     (let r = dropWhile (\<lambda>c. c = CHR ''0'') ds in if r = [] then ''0'' else r)"

text \<open>The show name and the season of a channel.\<close>

definition seriesKey :: "(string \<Rightarrow> string) \<Rightarrow> Channel \<Rightarrow> string \<times> string" where
  "seriesKey toSeason channel =
     (case matchName (chName channel) of
        None \<Rightarrow> (chName channel, ''1'')
      | Some (g1, g2) \<Rightarrow> (trim (dropFinalSep (trim g1)), toSeason g2))"

text \<open>\<open>`${channel.group}-${showName}`\<close>: a missing group prints as \<open>undefined\<close>.\<close>

definition seriesIdOf :: "(string \<Rightarrow> string) \<Rightarrow> Channel \<Rightarrow> string" where
  "seriesIdOf toSeason channel =
     (case chGroup channel of None \<Rightarrow> ''undefined'' | Some g \<Rightarrow> g)
       @ ''-'' @ fst (seriesKey toSeason channel)"

definition truthy :: "string option \<Rightarrow> bool" where
  "truthy v = (case v of None \<Rightarrow> False | Some s \<Rightarrow> s \<noteq> [])"

subsection \<open>The loop\<close>

text \<open>
  \<open>seriesMap\<close> is a \<open>Map\<close>: an association list in insertion order. \<open>series.seasons\<close> is an
  object used as a dictionary: an association list too, read by key only.
\<close>

definition addEpisode :: "string \<Rightarrow> Channel \<Rightarrow> Series \<Rightarrow> Series" where
  "addEpisode season channel series =
     (let series1 = (if map_of (seasons series) season = None
                     then series\<lparr>seasons := seasons series @ [(season, [])]\<rparr>
                     else series);
          series2 = series1\<lparr>seasons := map (\<lambda>(k, episodes).
                                               if k = season then (k, episodes @ [channel])
                                               else (k, episodes)) (seasons series1),
                            episodeCount := episodeCount series1 + 1\<rparr>
      in if \<not> truthy (serCover series2) \<and> truthy (chLogo channel)
         then series2\<lparr>serCover := chLogo channel\<rparr>
         else series2)"

definition newSeries :: "string \<Rightarrow> string \<Rightarrow> Channel \<Rightarrow> Series" where
  "newSeries seriesId showName channel =
     \<lparr>serId = seriesId, serName = showName, serCover = chLogo channel,
      serGroup = (case chGroup channel of
                    None \<Rightarrow> ''Uncategorized''
                  | Some g \<Rightarrow> if g = [] then ''Uncategorized'' else g),
      seasons = [], episodeCount = 0\<rparr>"

definition processChannel ::
  "(string \<Rightarrow> string) \<Rightarrow> (string \<times> Series) list \<Rightarrow> Channel \<Rightarrow> (string \<times> Series) list" where
  "processChannel toSeason seriesMap channel =
     (let showName = fst (seriesKey toSeason channel);
          season = snd (seriesKey toSeason channel);
          seriesId = seriesIdOf toSeason channel;
          seriesMap1 = (if map_of seriesMap seriesId = None
                        then seriesMap @ [(seriesId, newSeries seriesId showName channel)]
                        else seriesMap)
      in map (\<lambda>(k, series). if k = seriesId then (k, addEpisode season channel series)
                             else (k, series)) seriesMap1)"

definition processSeries :: "(string \<Rightarrow> string) \<Rightarrow> Channel list \<Rightarrow> Series list" where
  "processSeries toSeason channels = map snd (foldl (processChannel toSeason) [] channels)"

text \<open>All channels stored under the seasons of a series.\<close>

definition episodes :: "Series \<Rightarrow> Channel list" where
  "episodes series = concat (map snd (seasons series))"

text \<open>
  What the loop keeps true of a series stored under the key \<open>k\<close>: it carries its key,
  its season keys are distinct, its counter is the number of stored channels, and every
  stored channel lies in the series and under the season that its own name gives.
\<close>

definition seriesOk :: "(string \<Rightarrow> string) \<Rightarrow> string \<Rightarrow> Series \<Rightarrow> bool" where
  "seriesOk toSeason k series \<longleftrightarrow>
     serId series = k \<and> distinct (map fst (seasons series)) \<and>
     episodeCount series = length (episodes series) \<and>
     (\<forall>(season, b) \<in> set (seasons series). \<forall>x \<in> set b.
        seriesIdOf toSeason x = k \<and> snd (seriesKey toSeason x) = season)"

definition seriesInv :: "(string \<Rightarrow> string) \<Rightarrow> (string \<times> Series) list \<Rightarrow> bool" where
  "seriesInv toSeason seriesMap \<longleftrightarrow>
     distinct (map fst seriesMap) \<and>
     (\<forall>(k, series) \<in> set seriesMap. seriesOk toSeason k series)"


section \<open>Facts about the string operations\<close>

lemma includes_sublist: "includesStr s sub \<longleftrightarrow> sublist sub s"
  by (induction s) (auto simp: sublist_Cons_right)

lemma rev_split: "d = rev (dropWhile P (rev d)) @ rev (takeWhile P (rev d))"
proof -
  have "rev (takeWhile P (rev d) @ dropWhile P (rev d)) = d"
    by (simp only: takeWhile_dropWhile_id rev_rev_ident)
  then show ?thesis by (simp only: rev_append)
qed

lemma trim_decomp:
  "\<exists>pre post. u = pre @ trim u @ post \<and> list_all isWhiteSpace pre \<and> list_all isWhiteSpace post"
proof -
  define d where "d = dropWhile isWhiteSpace u"
  have 1: "u = takeWhile isWhiteSpace u @ d" by (simp add: d_def)
  have 2: "d = trim u @ rev (takeWhile isWhiteSpace (rev d))"
    unfolding trim_def d_def by (rule rev_split)
  have 3: "list_all isWhiteSpace (takeWhile isWhiteSpace u)"
    by (simp add: list_all_iff) (meson set_takeWhileD)
  have 4: "list_all isWhiteSpace (rev (takeWhile isWhiteSpace (rev d)))"
    by (simp add: list_all_iff) (meson set_takeWhileD)
  from 1 2 have "u = takeWhile isWhiteSpace u @ trim u @ rev (takeWhile isWhiteSpace (rev d))"
    by simp
  with 3 4 show ?thesis by blast
qed

lemma trim_last: "trim u \<noteq> [] \<Longrightarrow> \<not> isWhiteSpace (last (trim u))"
  unfolding trim_def by (simp add: last_rev hd_dropWhile)

lemma trim_hd: "trim u \<noteq> [] \<Longrightarrow> \<not> isWhiteSpace (hd (trim u))"
proof -
  assume ne: "trim u \<noteq> []"
  define d where "d = dropWhile isWhiteSpace u"
  have 2: "d = trim u @ rev (takeWhile isWhiteSpace (rev d))"
    unfolding trim_def d_def by (rule rev_split)
  with ne have "hd d = hd (trim u)" by (metis hd_append2)
  moreover have "d \<noteq> []" using 2 ne by auto
  then have "\<not> isWhiteSpace (hd d)" unfolding d_def by (rule hd_dropWhile)
  ultimately show ?thesis by simp
qed

lemma trim_id: "u = [] \<or> (\<not> isWhiteSpace (hd u) \<and> \<not> isWhiteSpace (last u)) \<Longrightarrow> trim u = u"
proof (cases u)
  case Nil then show ?thesis by (simp add: trim_def)
next
  case (Cons a as)
  assume "u = [] \<or> (\<not> isWhiteSpace (hd u) \<and> \<not> isWhiteSpace (last u))"
  with Cons have h: "\<not> isWhiteSpace a" and l: "\<not> isWhiteSpace (last u)" by auto
  from h Cons have 1: "dropWhile isWhiteSpace u = u" by simp
  from Cons have "rev u \<noteq> []" by simp
  from l have "\<not> isWhiteSpace (hd (rev u))" by (metis hd_rev)
  with \<open>rev u \<noteq> []\<close> have "dropWhile isWhiteSpace (rev u) = rev u"
    by (cases "rev u") auto
  with 1 show ?thesis by (simp add: trim_def)
qed

lemma replace_first:
  "sublist pat s \<Longrightarrow> \<exists>pre post. s = pre @ pat @ post \<and> replace s pat rep = pre @ rep @ post \<and>
      (\<forall>k < length pre. \<not> prefix pat (drop k s))"
proof (induction s)
  case Nil
  then show ?case by auto
next
  case (Cons c cs)
  show ?case
  proof (cases "prefix pat (c # cs)")
    case True
    then obtain post where post: "c # cs = pat @ post" by (auto simp: prefix_def)
    from True have "replace (c # cs) pat rep = rep @ drop (length pat) (c # cs)" by simp
    also have "drop (length pat) (c # cs) = post" unfolding post by simp
    finally have "replace (c # cs) pat rep = [] @ rep @ post" by simp
    with post have "c # cs = [] @ pat @ post \<and> replace (c # cs) pat rep = [] @ rep @ post \<and>
      (\<forall>k < length ([]::string). \<not> prefix pat (drop k (c # cs)))"
      by simp
    then show ?thesis by blast
  next
    case False
    with Cons.prems have "sublist pat cs" by (simp add: sublist_Cons_right)
    from Cons.IH[OF this] obtain pre post where
      p: "cs = pre @ pat @ post" "replace cs pat rep = pre @ rep @ post"
         "\<forall>k < length pre. \<not> prefix pat (drop k cs)" by blast
    have "\<forall>k < length (c # pre). \<not> prefix pat (drop k (c # cs))"
    proof (intro allI impI)
      fix k assume "k < length (c # pre)"
      then show "\<not> prefix pat (drop k (c # cs))"
        using False p(3) by (cases k) auto
    qed
    with p False have "c # cs = (c # pre) @ pat @ post \<and>
       replace (c # cs) pat rep = (c # pre) @ rep @ post \<and>
       (\<forall>k < length (c # pre). \<not> prefix pat (drop k (c # cs)))" by simp
    then show ?thesis by blast
  qed
qed


section \<open>The strategy transforms\<close>

text \<open>
  C7 (as amended). The Direct transform works on the trimmed address: when that contains
  \<open>output=ts\<close>, its first occurrence is rewritten to \<open>output=m3u8\<close>; otherwise, when it
  contains none of \<open>.m3u8\<close>, \<open>.mp4\<close> and \<open>?\<close>, the extension \<open>.m3u8\<close> is appended;
  otherwise the trimmed address is the result. An address without white space at its ends
  is its own trimmed address.
\<close>

theorem Direct_transform_trimmed:
  "(sublist ''output=ts'' (trim u) \<longrightarrow>
      (\<exists>pre post. trim u = pre @ ''output=ts'' @ post \<and>
         (\<forall>k<length pre. \<not> prefix ''output=ts'' (drop k (trim u))) \<and>
         transform (STRATEGIES ! 0) u = pre @ ''output=m3u8'' @ post)) \<and>
   (\<not> sublist ''output=ts'' (trim u) \<and> \<not> sublist ''.m3u8'' (trim u) \<and>
    \<not> sublist ''.mp4'' (trim u) \<and> \<not> sublist ''?'' (trim u) \<longrightarrow>
      transform (STRATEGIES ! 0) u = trim u @ ''.m3u8'') \<and>
   (\<not> sublist ''output=ts'' (trim u) \<and>
    (sublist ''.m3u8'' (trim u) \<or> sublist ''.mp4'' (trim u) \<or> sublist ''?'' (trim u)) \<longrightarrow>
      transform (STRATEGIES ! 0) u = trim u) \<and>
   (u = [] \<or> (\<not> isWhiteSpace (hd u) \<and> \<not> isWhiteSpace (last u)) \<longrightarrow> trim u = u)"
proof (intro conjI impI)
  assume "sublist ''output=ts'' (trim u)"
  then show "\<exists>pre post. trim u = pre @ ''output=ts'' @ post \<and>
         (\<forall>k<length pre. \<not> prefix ''output=ts'' (drop k (trim u))) \<and>
         transform (STRATEGIES ! 0) u = pre @ ''output=m3u8'' @ post"
    using replace_first [of "''output=ts''" "trim u" "''output=m3u8''"]
    by (simp add: STRATEGIES_def directTransform_def includes_sublist Let_def) blast
next
  assume "\<not> sublist ''output=ts'' (trim u) \<and> \<not> sublist ''.m3u8'' (trim u) \<and>
    \<not> sublist ''.mp4'' (trim u) \<and> \<not> sublist ''?'' (trim u)"
  then show "transform (STRATEGIES ! 0) u = trim u @ ''.m3u8''"
    by (simp add: STRATEGIES_def directTransform_def includes_sublist Let_def)
next
  assume "\<not> sublist ''output=ts'' (trim u) \<and>
    (sublist ''.m3u8'' (trim u) \<or> sublist ''.mp4'' (trim u) \<or> sublist ''?'' (trim u))"
  then show "transform (STRATEGIES ! 0) u = trim u"
    by (auto simp add: STRATEGIES_def directTransform_def includes_sublist Let_def)
next
  assume "u = [] \<or> (\<not> isWhiteSpace (hd u) \<and> \<not> isWhiteSpace (last u))"
  then show "trim u = u" by (rule trim_id)
qed

theorem Direct_transform_trimmed_witness:
  "sublist ''output=ts'' (trim '' http://h/get.php?u=a&output=ts '') \<and>
   transform (STRATEGIES ! 0) '' http://h/get.php?u=a&output=ts '' = ''http://h/get.php?u=a&output=m3u8'' \<and>
   \<not> sublist ''output=ts'' (trim ''http://h/live/7 '') \<and>
   \<not> sublist ''.m3u8'' (trim ''http://h/live/7 '') \<and>
   \<not> sublist ''.mp4'' (trim ''http://h/live/7 '') \<and>
   \<not> sublist ''?'' (trim ''http://h/live/7 '') \<and>
   transform (STRATEGIES ! 0) ''http://h/live/7 '' = ''http://h/live/7.m3u8'' \<and>
   \<not> sublist ''output=ts'' (trim '' http://h/a.mp4'') \<and>
   sublist ''.mp4'' (trim '' http://h/a.mp4'') \<and>
   transform (STRATEGIES ! 0) '' http://h/a.mp4'' = ''http://h/a.mp4'' \<and>
   \<not> isWhiteSpace (hd ''http://h/a.mp4'') \<and> \<not> isWhiteSpace (last ''http://h/a.mp4'') \<and>
   trim ''http://h/a.mp4'' = ''http://h/a.mp4''"
  using Direct_transform_trimmed [of "'' http://h/get.php?u=a&output=ts ''"]
        Direct_transform_trimmed [of "''http://h/live/7 ''"]
        Direct_transform_trimmed [of "'' http://h/a.mp4''"]
        Direct_transform_trimmed [of "''http://h/a.mp4''"]
  by (simp add: includes_sublist [symmetric] trim_def isWhiteSpace_def
        STRATEGIES_def directTransform_def)

text \<open>
  C7 as stated fails: an address with a leading space that falls in the last case is not
  returned unchanged.
\<close>

theorem Direct_transform_unchanged_counterexample:
  "\<not> includesStr '' http://h/a.mp4'' ''output=ts'' \<and>
   includesStr '' http://h/a.mp4'' ''.mp4'' \<and>
   transform (STRATEGIES ! 0) '' http://h/a.mp4'' = ''http://h/a.mp4'' \<and>
   transform (STRATEGIES ! 0) '' http://h/a.mp4'' \<noteq> '' http://h/a.mp4''"
  by (simp add: STRATEGIES_def directTransform_def trim_def isWhiteSpace_def)

text \<open>
  C8 (as amended). The Native transform returns the address with the white space at its
  two ends removed; it is the identity on the addresses that have none there.
\<close>

theorem Native_transform_trim:
  "transform (STRATEGIES ! 3) u = trim u \<and>
   (\<exists>pre post. u = pre @ transform (STRATEGIES ! 3) u @ post \<and>
      list_all isWhiteSpace pre \<and> list_all isWhiteSpace post) \<and>
   (transform (STRATEGIES ! 3) u \<noteq> [] \<longrightarrow>
      \<not> isWhiteSpace (hd (transform (STRATEGIES ! 3) u)) \<and>
      \<not> isWhiteSpace (last (transform (STRATEGIES ! 3) u))) \<and>
   (u = [] \<or> (\<not> isWhiteSpace (hd u) \<and> \<not> isWhiteSpace (last u)) \<longrightarrow>
      transform (STRATEGIES ! 3) u = u)"
  using trim_decomp [of u] trim_id [of u] trim_hd [of u] trim_last [of u]
  by (simp add: STRATEGIES_def nativeTransform_def)

theorem Native_transform_trim_witness:
  "\<not> isWhiteSpace (hd ''http://h/movie.mkv'') \<and> \<not> isWhiteSpace (last ''http://h/movie.mkv'') \<and>
   transform (STRATEGIES ! 3) ''http://h/movie.mkv'' = ''http://h/movie.mkv'' \<and>
   transform (STRATEGIES ! 3) ''http://h/movie.mkv'' \<noteq> []"
  using Native_transform_trim [of "''http://h/movie.mkv''"]
  by (auto simp add: isWhiteSpace_def)

text \<open>
  C8 as stated fails: the Native transform is not the identity on an address with a
  leading space.
\<close>

theorem Native_transform_identity_counterexample:
  "transform (STRATEGIES ! 3) '' http://h/movie.mkv'' = ''http://h/movie.mkv'' \<and>
   transform (STRATEGIES ! 3) '' http://h/movie.mkv'' \<noteq> '' http://h/movie.mkv''"
  by (simp add: STRATEGIES_def nativeTransform_def trim_def isWhiteSpace_def)



section \<open>The controller: frame facts\<close>

lemma length_STRATEGIES: "length STRATEGIES = 4"
  by (simp add: STRATEGIES_def)

lemma strategyAt_valid: "i \<le> 3 \<Longrightarrow> strategyAt i = Some (STRATEGIES ! i)"
  by (simp add: strategyAt_def length_STRATEGIES)

lemma strategyAt_0: "strategyAt 0 = Some (STRATEGIES ! 0)"
  by (simp add: strategyAt_valid)

lemma STRATEGIES_0:
  "name (STRATEGIES ! 0) = ''Direct Connection''" "mode (STRATEGIES ! 0) = HLS"
  "transform (STRATEGIES ! 0) = directTransform"
  by (simp_all add: STRATEGIES_def)

lemma effectCleanup_frame:
  "url (effectCleanup s) = url s" "hlsSupported (effectCleanup s) = hlsSupported s"
  "strategyIndex (effectCleanup s) = strategyIndex s" "retryCount (effectCleanup s) = retryCount s"
  "isReconnecting (effectCleanup s) = isReconnecting s" "isLoading (effectCleanup s) = isLoading s"
  "timers (effectCleanup s) = timers s" "now (effectCleanup s) = now s"
  "crashed (effectCleanup s) = crashed s" "minimal (effectCleanup s) = minimal s"
  "error (effectCleanup s) = error s"
  "videoPaused (effectCleanup s) = videoPaused s" "videoReadyState (effectCleanup s) = videoReadyState s"
  by (simp_all add: effectCleanup_def Let_def)

lemma effectBody_frame:
  "url (effectBody s) = url s" "hlsSupported (effectBody s) = hlsSupported s"
  "strategyIndex (effectBody s) = strategyIndex s" "retryCount (effectBody s) = retryCount s"
  "isReconnecting (effectBody s) = isReconnecting s"
  "timers (effectBody s) = timers s" "now (effectBody s) = now s"
  "minimal (effectBody s) = minimal s"
  "videoPaused (effectBody s) = videoPaused s" "videoReadyState (effectBody s) = videoReadyState s"
  by (simp_all add: effectBody_def Let_def split: option.split)

lemma effectBody_crashed:
  "strategyIndex s \<le> 3 \<Longrightarrow> crashed (effectBody s) = crashed s"
  by (simp add: effectBody_def Let_def strategyAt_valid)

lemma playerEffect_frame:
  "url (playerEffect s) = url s" "hlsSupported (playerEffect s) = hlsSupported s"
  "strategyIndex (playerEffect s) = strategyIndex s" "retryCount (playerEffect s) = retryCount s"
  "isReconnecting (playerEffect s) = isReconnecting s"
  "timers (playerEffect s) = timers s" "now (playerEffect s) = now s"
  "minimal (playerEffect s) = minimal s"
  "videoPaused (playerEffect s) = videoPaused s" "videoReadyState (playerEffect s) = videoReadyState s"
  by (simp_all add: playerEffect_def effectBody_frame effectCleanup_frame)

lemma playerEffect_crashed:
  "strategyIndex s \<le> 3 \<Longrightarrow> crashed (playerEffect s) = crashed s"
  by (simp add: playerEffect_def effectBody_crashed effectCleanup_frame)

lemma commit_frame:
  "url (commit old new) = url new" "hlsSupported (commit old new) = hlsSupported new"
  "strategyIndex (commit old new) = strategyIndex new" "retryCount (commit old new) = retryCount new"
  "isReconnecting (commit old new) = isReconnecting new"
  "timers (commit old new) = timers new" "now (commit old new) = now new"
  "minimal (commit old new) = minimal new"
  "videoPaused (commit old new) = videoPaused new" "videoReadyState (commit old new) = videoReadyState new"
  by (simp_all add: commit_def playerEffect_frame)

lemma commit_crashed:
  "strategyIndex new \<le> 3 \<Longrightarrow> crashed (commit old new) = crashed new"
  by (simp add: commit_def playerEffect_crashed)

lemma commit_same: "deps new = deps old \<Longrightarrow> commit old new = new"
  by (simp add: commit_def)

lemma attemptNextStrategy_index: "strategyIndex s \<le> 3 \<Longrightarrow> strategyIndex (attemptNextStrategy s) \<le> 3"
  by (simp add: attemptNextStrategy_def Let_def length_STRATEGIES)

lemma attemptNextStrategy_crashed: "crashed (attemptNextStrategy s) = crashed s"
  by (simp add: attemptNextStrategy_def Let_def)

lemma handler_index: "strategyIndex s \<le> 3 \<Longrightarrow> strategyIndex (handler s e) \<le> 3"
  by (cases e)
     (auto simp: attemptNextStrategy_def Let_def length_STRATEGIES handleStall_def cooldownReset_def forceRetry_def
           split: ErrorType.split Timeout.split)

lemma handler_crashed: "crashed (handler s e) = crashed s"
  by (cases e)
     (auto simp: attemptNextStrategy_def Let_def handleStall_def cooldownReset_def forceRetry_def
           split: ErrorType.split Timeout.split)

lemma step_invariant:
  "strategyIndex s \<le> 3 \<and> \<not> crashed s \<Longrightarrow> strategyIndex (step s e) \<le> 3 \<and> \<not> crashed (step s e)"
  by (simp add: step_def commit_frame commit_crashed handler_index handler_crashed)

lemma run_invariant:
  "strategyIndex s \<le> 3 \<and> \<not> crashed s \<Longrightarrow> strategyIndex (run s es) \<le> 3 \<and> \<not> crashed (run s es)"
  unfolding run_def
proof (induction es arbitrary: s)
  case Nil
  then show ?case by simp
next
  case (Cons e es)
  from Cons.prems have "strategyIndex (step s e) \<le> 3 \<and> \<not> crashed (step s e)"
    by (rule step_invariant)
  then show ?case using Cons.IH by simp
qed

lemma initialStrategyIndex_le: "initialStrategyIndex w u \<le> 1"
  by (simp add: initialStrategyIndex_def split: option.split)

lemma mount_invariant: "strategyIndex (mount w hs mi u) \<le> 3 \<and> \<not> crashed (mount w hs mi u)"
proof -
  have "initialStrategyIndex w u \<le> 3" using initialStrategyIndex_le [of w u] by simp
  then show ?thesis
    by (simp add: mount_def effectBody_frame effectBody_crashed)
qed

section \<open>The controller: the strategy index\<close>

text \<open>
  C3. In every state reached from a mounted player by any sequence of callbacks (error
  signals, escalations, cooldown resets, forced retries, watchdog ticks, changes of the
  address and the rest),
  \<open>strategyIndex\<close> is at most 3, a valid index into the catalog of four strategies, and
  the effect has never read the catalog out of range.
\<close>

theorem strategyIndex_valid:
  "strategyIndex (run (mount window supported mini u) es) \<le> 3 \<and>
   strategyIndex (run (mount window supported mini u) es) < length STRATEGIES \<and>
   \<not> crashed (run (mount window supported mini u) es)"
  using run_invariant [OF mount_invariant, of window supported mini u es]
  by (simp add: length_STRATEGIES)








section \<open>The controller: error signals\<close>

lemma run_Nil: "run s [] = s"
  by (simp add: run_def)

lemma run_Cons: "run s (e # es) = run (step s e) es"
  by (simp add: run_def)

lemma step_recovery:
  assumes "hlsRef s \<noteq> None" "\<not> crashed s" "ty = NETWORK_ERROR \<or> ty = MEDIA_ERROR"
  shows "step s (HlsError True ty) = s\<lparr>sinkLog := sinkLog s @ [recoveryCall ty]\<rparr>"
proof -
  from assms(3) assms(1)
  have h: "handler s (HlsError True ty) = s\<lparr>sinkLog := sinkLog s @ [recoveryCall ty]\<rparr>"
    by (elim disjE) simp_all
  have "deps (s\<lparr>sinkLog := sinkLog s @ [recoveryCall ty]\<rparr>) = deps s"
    by (simp add: deps_def)
  then have "commit s (s\<lparr>sinkLog := sinkLog s @ [recoveryCall ty]\<rparr>) =
             s\<lparr>sinkLog := sinkLog s @ [recoveryCall ty]\<rparr>"
    by (rule commit_same)
  with h assms(2) show ?thesis
    by (simp only: step_def if_False)
qed

text \<open>
  C1 (as amended). On a fatal error of type network (resp. media) the handler of the
  attached instance calls \<open>startLoad\<close> (resp. \<open>recoverMediaError\<close>) and does nothing
  else: over any sequence of such errors, recurring or not, one recovery call is made per
  error and the strategy index, the retry counter, the reconnecting flag and the pending
  timeouts stay as they are. The handler never escalates on these two types.
\<close>

theorem fatal_network_media_recover_in_place:
  assumes "hlsRef s \<noteq> None" and "\<not> crashed s"
    and "\<forall>ty\<in>set tys. ty = NETWORK_ERROR \<or> ty = MEDIA_ERROR"
  shows "run s (map (HlsError True) tys) = s\<lparr>sinkLog := sinkLog s @ map recoveryCall tys\<rparr> \<and>
         strategyIndex (run s (map (HlsError True) tys)) = strategyIndex s \<and>
         retryCount (run s (map (HlsError True) tys)) = retryCount s \<and>
         isReconnecting (run s (map (HlsError True) tys)) = isReconnecting s \<and>
         timers (run s (map (HlsError True) tys)) = timers s"
proof -
  have "run s (map (HlsError True) tys) = s\<lparr>sinkLog := sinkLog s @ map recoveryCall tys\<rparr>"
    using assms
  proof (induction tys arbitrary: s)
    case Nil
    then show ?case by (simp add: run_Nil)
  next
    case (Cons ty tys)
    let ?s1 = "s\<lparr>sinkLog := sinkLog s @ [recoveryCall ty]\<rparr>"
    from Cons.prems have st: "step s (HlsError True ty) = ?s1"
      by (simp add: step_recovery)
    have "run ?s1 (map (HlsError True) tys) = ?s1\<lparr>sinkLog := sinkLog ?s1 @ map recoveryCall tys\<rparr>"
      using Cons.prems by (intro Cons.IH) simp_all
    with st show ?case by (simp add: run_Cons)
  qed
  then show ?thesis by simp
qed

theorem fatal_network_media_recover_in_place_witness:
  "hlsRef (mount None True False ''http://h/live/7'') \<noteq> None \<and>
   \<not> crashed (mount None True False ''http://h/live/7'') \<and>
   strategyIndex (run (mount None True False ''http://h/live/7'')
      (map (HlsError True) [NETWORK_ERROR, NETWORK_ERROR, MEDIA_ERROR, MEDIA_ERROR])) = 0 \<and>
   sinkLog (run (mount None True False ''http://h/live/7'')
      (map (HlsError True) [NETWORK_ERROR, NETWORK_ERROR, MEDIA_ERROR, MEDIA_ERROR])) =
     [HlsLoadSource ''http://h/live/7.m3u8'', HlsAttachMedia,
      HlsStartLoad, HlsStartLoad, HlsRecoverMediaError, HlsRecoverMediaError]"
proof -
  have h1: "hlsRef (mount None True False ''http://h/live/7'') \<noteq> None" by code_simp
  have h2: "\<not> crashed (mount None True False ''http://h/live/7'')" by code_simp
  have h3: "\<forall>ty\<in>set [NETWORK_ERROR, NETWORK_ERROR, MEDIA_ERROR, MEDIA_ERROR].
              ty = NETWORK_ERROR \<or> ty = MEDIA_ERROR" by simp
  have m: "strategyIndex (mount None True False ''http://h/live/7'') = 0"
    "sinkLog (mount None True False ''http://h/live/7'') =
       [HlsLoadSource ''http://h/live/7.m3u8'', HlsAttachMedia]"
    by code_simp+
  from fatal_network_media_recover_in_place [OF h1 h2 h3] h1 h2 m show ?thesis
    by simp
qed

text \<open>
  C1 as stated fails: a network error that recurs before any playing signal does not
  escalate. After two fatal network errors in a row the index is still 0, where one
  escalation (as a fatal error of another type causes) would give 1.
\<close>

theorem recurring_network_error_counterexample:
  "strategyIndex (run (mount None True False ''http://h/live/7'')
      [HlsError True NETWORK_ERROR, HlsError True NETWORK_ERROR]) = 0 \<and>
   \<not> isReconnecting (run (mount None True False ''http://h/live/7'')
      [HlsError True NETWORK_ERROR, HlsError True NETWORK_ERROR]) \<and>
   timers (run (mount None True False ''http://h/live/7'')
      [HlsError True NETWORK_ERROR, HlsError True NETWORK_ERROR]) = [] \<and>
   sinkLog (run (mount None True False ''http://h/live/7'')
      [HlsError True NETWORK_ERROR, HlsError True NETWORK_ERROR]) =
     [HlsLoadSource ''http://h/live/7.m3u8'', HlsAttachMedia, HlsStartLoad, HlsStartLoad] \<and>
   strategyIndex (run (mount None True False ''http://h/live/7'') [HlsError True OTHER_ERROR]) = 1"
  by code_simp


section \<open>The controller: cooldown\<close>

lemma attemptNextStrategy_last:
  "strategyIndex s = 3 \<Longrightarrow>
   attemptNextStrategy s =
     s\<lparr>isReconnecting := True, timers := timers s @ [(now s + 3000, CooldownReset)]\<rparr>"
  by (simp add: attemptNextStrategy_def length_STRATEGIES Let_def)

lemma effectCleanup_listener: "\<not> nativeErrorListener (effectCleanup s)"
  by (simp add: effectCleanup_def Let_def)

lemma effectBody_attach0:
  assumes "strategyIndex s = 0"
  shows "isLoading (effectBody s)" "\<not> isPlaying (effectBody s)" "error (effectBody s) = None"
    "debugMsg (effectBody s) =
       (if isReconnecting s
        then ''Reconnecting (Attempt '' @ natToString (retryCount s + 1) @ '')...''
        else ''Connecting via Direct Connection...'')"
    "hlsSupported s \<Longrightarrow> hlsRef (effectBody s) = Some (transform (STRATEGIES ! 0) (url s))"
    "hlsSupported s \<Longrightarrow> nativeErrorListener (effectBody s) = nativeErrorListener s"
    "hlsSupported s \<Longrightarrow>
       suffix [HlsLoadSource (transform (STRATEGIES ! 0) (url s)), HlsAttachMedia]
         (sinkLog (effectBody s))"
    "\<not> hlsSupported s \<Longrightarrow> hlsRef (effectBody s) = None"
    "\<not> hlsSupported s \<Longrightarrow> nativeErrorListener (effectBody s)"
    "\<not> hlsSupported s \<Longrightarrow>
       suffix [VideoSetSrc (transform (STRATEGIES ! 0) (url s)), VideoLoad, VideoPlay]
         (sinkLog (effectBody s))"
  using assms
  by (simp_all add: effectBody_def strategyAt_0 STRATEGIES_0 Let_def suffix_def)

lemma playerEffect_attach0:
  assumes "strategyIndex s = 0"
  shows "isLoading (playerEffect s)" "\<not> isPlaying (playerEffect s)" "error (playerEffect s) = None"
    "debugMsg (playerEffect s) =
       (if isReconnecting s
        then ''Reconnecting (Attempt '' @ natToString (retryCount s + 1) @ '')...''
        else ''Connecting via Direct Connection...'')"
    "hlsSupported s \<Longrightarrow> hlsRef (playerEffect s) = Some (transform (STRATEGIES ! 0) (url s))"
    "hlsSupported s \<Longrightarrow> \<not> nativeErrorListener (playerEffect s)"
    "hlsSupported s \<Longrightarrow>
       suffix [HlsLoadSource (transform (STRATEGIES ! 0) (url s)), HlsAttachMedia]
         (sinkLog (playerEffect s))"
    "\<not> hlsSupported s \<Longrightarrow> hlsRef (playerEffect s) = None"
    "\<not> hlsSupported s \<Longrightarrow> nativeErrorListener (playerEffect s)"
    "\<not> hlsSupported s \<Longrightarrow>
       suffix [VideoSetSrc (transform (STRATEGIES ! 0) (url s)), VideoLoad, VideoPlay]
         (sinkLog (playerEffect s))"
  using assms effectBody_attach0 [of "effectCleanup s"]
  by (simp_all add: playerEffect_def effectCleanup_frame effectCleanup_listener)

lemma removeTimer_last: "removeTimer (length ts) (ts @ [x]) = ts"
  by (simp add: removeTimer_def)

lemma step_Elapse: "\<not> crashed s \<Longrightarrow> step s (Elapse dt) = s\<lparr>now := now s + dt\<rparr>"
  by (simp add: step_def commit_def deps_def)

lemma step_TimerFire_early:
  "i < length (timers s) \<Longrightarrow> now s < fst (timers s ! i) \<Longrightarrow> step s (TimerFire i) = s"
  by (simp add: step_def commit_def)

lemma step_TimerFire_cooldown:
  assumes "\<not> crashed s" "i < length (timers s)" "timers s ! i = (d, CooldownReset)" "d \<le> now s"
    "deps s \<noteq> (url s, 0, False, retryCount s + 1)"
  shows "step s (TimerFire i) = playerEffect (cooldownReset (s\<lparr>timers := removeTimer i (timers s)\<rparr>))"
proof -
  let ?r = "cooldownReset (s\<lparr>timers := removeTimer i (timers s)\<rparr>)"
  from assms(2-4) have h: "handler s (TimerFire i) = ?r"
    by (simp add: Let_def)
  have "deps ?r = (url s, 0, False, retryCount s + 1)"
    by (simp add: deps_def cooldownReset_def)
  with assms(5) have "deps ?r \<noteq> deps s" by simp
  then have "commit s ?r = playerEffect ?r" by (simp add: commit_def)
  with h assms(1) show ?thesis by (simp only: step_def if_False)
qed

lemma cooldown_timer_fires:
  assumes "\<not> crashed s" "i < length (timers s)" "timers s ! i = (d, CooldownReset)" "d \<le> now s"
  shows "strategyIndex (step s (TimerFire i)) = 0"
    "retryCount (step s (TimerFire i)) = retryCount s + 1"
    "\<not> isReconnecting (step s (TimerFire i))"
    "timers (step s (TimerFire i)) = removeTimer i (timers s)"
proof -
  have "deps s \<noteq> (url s, 0, False, retryCount s + 1)" by (simp add: deps_def)
  with assms have e: "step s (TimerFire i) =
      playerEffect (cooldownReset (s\<lparr>timers := removeTimer i (timers s)\<rparr>))"
    by (rule step_TimerFire_cooldown)
  show "strategyIndex (step s (TimerFire i)) = 0"
    "retryCount (step s (TimerFire i)) = retryCount s + 1"
    "\<not> isReconnecting (step s (TimerFire i))"
    "timers (step s (TimerFire i)) = removeTimer i (timers s)"
    by (simp_all add: e playerEffect_frame cooldownReset_def)
qed

text \<open>
  C2. Escalating at the last index 3 is no terminal state: the index stays 3, the
  reconnecting flag is set and a cooldown timeout is pending, due 3000 ms later. It cannot
  run before that. When it runs, the index is 0, the retry counter is one more than before,
  the reconnecting flag is cleared, the timeout is gone and the effect has started a new
  attempt through the Direct strategy. (Whatever happens in between, a due cooldown
  timeout that runs sets the index to 0, adds one to the retry counter and clears the
  flag: \<open>cooldown_timer_fires\<close>.)
\<close>

theorem cooldown_cycle:
  assumes nc: "\<not> crashed s" and last: "strategyIndex s = 3"
  shows "let s1 = commit s (attemptNextStrategy s); k = length (timers s) in
     \<not> crashed s1 \<and> strategyIndex s1 = 3 \<and> isReconnecting s1 \<and>
     retryCount s1 = retryCount s \<and>
     timers s1 = timers s @ [(now s + 3000, CooldownReset)] \<and>
     (\<forall>dt<3000. run s1 [Elapse dt, TimerFire k] = run s1 [Elapse dt]) \<and>
     (\<forall>dt\<ge>3000.
        let s2 = run s1 [Elapse dt, TimerFire k] in
        \<not> crashed s2 \<and> strategyIndex s2 = 0 \<and> retryCount s2 = retryCount s + 1 \<and>
        \<not> isReconnecting s2 \<and> timers s2 = timers s \<and>
        isLoading s2 \<and> \<not> isPlaying s2 \<and>
        debugMsg s2 = ''Connecting via Direct Connection...'' \<and>
        (if hlsSupported s
         then hlsRef s2 = Some (transform (STRATEGIES ! 0) (url s)) \<and>
              suffix [HlsLoadSource (transform (STRATEGIES ! 0) (url s)), HlsAttachMedia]
                (sinkLog s2)
         else hlsRef s2 = None \<and> nativeErrorListener s2 \<and>
              suffix [VideoSetSrc (transform (STRATEGIES ! 0) (url s)), VideoLoad, VideoPlay]
                (sinkLog s2)))"
proof -
  define s1 where "s1 = commit s (attemptNextStrategy s)"
  define k where "k = length (timers s)"
  have a: "attemptNextStrategy s =
             s\<lparr>isReconnecting := True, timers := timers s @ [(now s + 3000, CooldownReset)]\<rparr>"
    using last by (rule attemptNextStrategy_last)
  have f1: "strategyIndex s1 = 3" "isReconnecting s1" "retryCount s1 = retryCount s"
    "timers s1 = timers s @ [(now s + 3000, CooldownReset)]" "now s1 = now s"
    "url s1 = url s" "hlsSupported s1 = hlsSupported s"
    using last by (simp_all add: s1_def commit_frame a)
  have c1: "\<not> crashed s1"
    using nc last by (simp add: s1_def commit_crashed a)
  have e: "step s1 (Elapse dt) = s1\<lparr>now := now s1 + dt\<rparr>" for dt
    using c1 by (rule step_Elapse)
  have early: "run s1 [Elapse dt, TimerFire k] = run s1 [Elapse dt]" if "dt < 3000" for dt
  proof -
    let ?e = "s1\<lparr>now := now s1 + dt\<rparr>"
    have "k < length (timers ?e)" by (simp add: f1 k_def)
    moreover have "now ?e < fst (timers ?e ! k)" using that by (simp add: f1 k_def)
    ultimately have "step ?e (TimerFire k) = ?e" by (rule step_TimerFire_early)
    then show ?thesis by (simp add: run_Cons run_Nil e)
  qed
  have late: "\<not> crashed s2 \<and> strategyIndex s2 = 0 \<and> retryCount s2 = retryCount s + 1 \<and>
        \<not> isReconnecting s2 \<and> timers s2 = timers s \<and>
        isLoading s2 \<and> \<not> isPlaying s2 \<and>
        debugMsg s2 = ''Connecting via Direct Connection...'' \<and>
        (if hlsSupported s
         then hlsRef s2 = Some (transform (STRATEGIES ! 0) (url s)) \<and>
              suffix [HlsLoadSource (transform (STRATEGIES ! 0) (url s)), HlsAttachMedia]
                (sinkLog s2)
         else hlsRef s2 = None \<and> nativeErrorListener s2 \<and>
              suffix [VideoSetSrc (transform (STRATEGIES ! 0) (url s)), VideoLoad, VideoPlay]
                (sinkLog s2))"
    if dt: "3000 \<le> dt" and s2: "s2 = run s1 [Elapse dt, TimerFire k]" for dt s2
  proof -
    let ?e = "s1\<lparr>now := now s1 + dt\<rparr>"
    let ?r = "cooldownReset (?e\<lparr>timers := removeTimer k (timers ?e)\<rparr>)"
    have "\<not> crashed ?e" using c1 by simp
    moreover have "k < length (timers ?e)" by (simp add: f1 k_def)
    moreover have "timers ?e ! k = (now s + 3000, CooldownReset)" by (simp add: f1 k_def)
    moreover have "now s + 3000 \<le> now ?e" using dt by (simp add: f1)
    moreover have "deps ?e \<noteq> (url ?e, 0, False, retryCount ?e + 1)"
      by (simp add: deps_def f1)
    ultimately have "step ?e (TimerFire k) = playerEffect ?r"
      by (rule step_TimerFire_cooldown)
    then have s2': "s2 = playerEffect ?r" by (simp add: s2 run_Cons run_Nil e)
    have r: "strategyIndex ?r = 0" "retryCount ?r = retryCount s + 1" "\<not> isReconnecting ?r"
      "timers ?r = timers s" "url ?r = url s" "hlsSupported ?r = hlsSupported s" "\<not> crashed ?r"
      using c1 by (simp_all add: cooldownReset_def f1 k_def removeTimer_last)
    have "\<not> crashed s2" using r by (simp add: s2' playerEffect_crashed)
    moreover have "strategyIndex s2 = 0" "retryCount s2 = retryCount s + 1" "\<not> isReconnecting s2"
      "timers s2 = timers s"
      using r by (simp_all only: s2' playerEffect_frame simp_thms)
    moreover have "isLoading s2" "\<not> isPlaying s2"
      unfolding s2' using r(1) by (rule playerEffect_attach0)+
    moreover have "debugMsg s2 = ''Connecting via Direct Connection...''"
      unfolding s2' using playerEffect_attach0(4) [OF r(1)] r(3) by simp
    moreover have "hlsRef s2 = Some (transform (STRATEGIES ! 0) (url s)) \<and>
              suffix [HlsLoadSource (transform (STRATEGIES ! 0) (url s)), HlsAttachMedia]
                (sinkLog s2)" if "hlsSupported s"
      unfolding s2'
      using playerEffect_attach0(5) [OF r(1)] playerEffect_attach0(7) [OF r(1)] that r(5,6)
      by simp
    moreover have "hlsRef s2 = None \<and> nativeErrorListener s2 \<and>
              suffix [VideoSetSrc (transform (STRATEGIES ! 0) (url s)), VideoLoad, VideoPlay]
                (sinkLog s2)" if "\<not> hlsSupported s"
      unfolding s2'
      using playerEffect_attach0(8) [OF r(1)] playerEffect_attach0(9) [OF r(1)]
        playerEffect_attach0(10) [OF r(1)] that r(5,6)
      by simp
    ultimately show ?thesis by simp
  qed
  from c1 f1 early late show ?thesis
    unfolding s1_def [symmetric] k_def [symmetric] Let_def by blast
qed

theorem cooldown_cycle_witness:
  "\<not> crashed (run (mount None True False ''http://h/live/7'')
       [HlsError True OTHER_ERROR, HlsError True OTHER_ERROR, HlsError True OTHER_ERROR]) \<and>
   strategyIndex (run (mount None True False ''http://h/live/7'')
       [HlsError True OTHER_ERROR, HlsError True OTHER_ERROR, HlsError True OTHER_ERROR]) = 3 \<and>
   isReconnecting (commit
     (run (mount None True False ''http://h/live/7'')
       [HlsError True OTHER_ERROR, HlsError True OTHER_ERROR, HlsError True OTHER_ERROR])
     (attemptNextStrategy (run (mount None True False ''http://h/live/7'')
       [HlsError True OTHER_ERROR, HlsError True OTHER_ERROR, HlsError True OTHER_ERROR]))) \<and>
   strategyIndex (run (commit
     (run (mount None True False ''http://h/live/7'')
       [HlsError True OTHER_ERROR, HlsError True OTHER_ERROR, HlsError True OTHER_ERROR])
     (attemptNextStrategy (run (mount None True False ''http://h/live/7'')
       [HlsError True OTHER_ERROR, HlsError True OTHER_ERROR, HlsError True OTHER_ERROR])))
     [Elapse 3000, TimerFire 0]) = 0 \<and>
   retryCount (run (commit
     (run (mount None True False ''http://h/live/7'')
       [HlsError True OTHER_ERROR, HlsError True OTHER_ERROR, HlsError True OTHER_ERROR])
     (attemptNextStrategy (run (mount None True False ''http://h/live/7'')
       [HlsError True OTHER_ERROR, HlsError True OTHER_ERROR, HlsError True OTHER_ERROR])))
     [Elapse 3000, TimerFire 0]) = 1 \<and>
   hlsRef (run (commit
     (run (mount None True False ''http://h/live/7'')
       [HlsError True OTHER_ERROR, HlsError True OTHER_ERROR, HlsError True OTHER_ERROR])
     (attemptNextStrategy (run (mount None True False ''http://h/live/7'')
       [HlsError True OTHER_ERROR, HlsError True OTHER_ERROR, HlsError True OTHER_ERROR])))
     [Elapse 3000, TimerFire 0]) = Some ''http://h/live/7.m3u8''"
proof -
  let ?S = "run (mount None True False ''http://h/live/7'')
       [HlsError True OTHER_ERROR, HlsError True OTHER_ERROR, HlsError True OTHER_ERROR]"
  have h1: "\<not> crashed ?S" by code_simp
  have h2: "strategyIndex ?S = 3" by code_simp
  have k: "length (timers ?S) = 0" by code_simp
  have u: "url ?S = ''http://h/live/7''" "hlsSupported ?S" by code_simp+
  have t: "transform (STRATEGIES ! 0) ''http://h/live/7'' = ''http://h/live/7.m3u8''"
    by code_simp
  note c = cooldown_cycle [OF h1 h2, unfolded Let_def k]
  from c have "isReconnecting (commit ?S (attemptNextStrategy ?S))" by blast
  moreover from c have "\<forall>dt\<ge>3000.
        strategyIndex (run (commit ?S (attemptNextStrategy ?S)) [Elapse dt, TimerFire 0]) = 0 \<and>
        retryCount (run (commit ?S (attemptNextStrategy ?S)) [Elapse dt, TimerFire 0]) =
          retryCount ?S + 1 \<and>
        hlsRef (run (commit ?S (attemptNextStrategy ?S)) [Elapse dt, TimerFire 0]) =
          Some (transform (STRATEGIES ! 0) (url ?S))"
    using u(2) by (simp only: if_True) blast
  then have "strategyIndex (run (commit ?S (attemptNextStrategy ?S)) [Elapse 3000, TimerFire 0]) = 0 \<and>
        retryCount (run (commit ?S (attemptNextStrategy ?S)) [Elapse 3000, TimerFire 0]) =
          retryCount ?S + 1 \<and>
        hlsRef (run (commit ?S (attemptNextStrategy ?S)) [Elapse 3000, TimerFire 0]) =
          Some (transform (STRATEGIES ! 0) (url ?S))"
    by simp
  moreover have "retryCount ?S = 0" by code_simp
  ultimately show ?thesis using h1 h2 u t by simp
qed


section \<open>The controller: forced retry\<close>














section \<open>The controller: the watchdog\<close>

lemma step_WatchdogTick:
  "step s WatchdogTick =
     (if \<not> crashed s \<and> \<not> videoPaused s \<and> videoReadyState s < 3 \<and> watchdogLoading s \<and>
         hlsRef s \<noteq> None
      then s\<lparr>sinkLog := sinkLog s @ [VideoCurrentTimeAdd (1 / 2), HlsRecoverMediaError]\<rparr>
      else s)"
  by (simp add: step_def commit_def deps_def handleStall_def)

lemma run_WatchdogTicks:
  "run s (replicate n WatchdogTick) =
     (if \<not> crashed s \<and> \<not> videoPaused s \<and> videoReadyState s < 3 \<and> watchdogLoading s \<and>
         hlsRef s \<noteq> None
      then s\<lparr>sinkLog := sinkLog s @
               concat (replicate n [VideoCurrentTimeAdd (1 / 2), HlsRecoverMediaError])\<rparr>
      else s)"
proof (induction n arbitrary: s)
  case 0
  then show ?case by (simp add: run_Nil)
next
  case (Suc n)
  show ?case
  proof (cases "\<not> crashed s \<and> \<not> videoPaused s \<and> videoReadyState s < 3 \<and> watchdogLoading s \<and>
         hlsRef s \<noteq> None")
    case True
    let ?s1 = "s\<lparr>sinkLog := sinkLog s @ [VideoCurrentTimeAdd (1 / 2), HlsRecoverMediaError]\<rparr>"
    from True have st: "step s WatchdogTick = ?s1" by (simp add: step_WatchdogTick)
    from True have c: "\<not> crashed ?s1 \<and> \<not> videoPaused ?s1 \<and> videoReadyState ?s1 < 3 \<and>
        watchdogLoading ?s1 \<and> hlsRef ?s1 \<noteq> None" by simp
    have "run ?s1 (replicate n WatchdogTick) =
        ?s1\<lparr>sinkLog := sinkLog ?s1 @
               concat (replicate n [VideoCurrentTimeAdd (1 / 2), HlsRecoverMediaError])\<rparr>"
      using Suc.IH [of ?s1] by (simp only: if_P [OF c])
    then show ?thesis using True st
      by (simp add: run_Cons)
  next
    case False
    then have st: "step s WatchdogTick = s" by (simp only: step_WatchdogTick if_False)
    from False Suc.IH [of s] have "run s (replicate n WatchdogTick) = s" by (simp only: if_False)
    with st False show ?thesis by (simp only: replicate_Suc run_Cons if_False)
  qed
qed

text \<open>
  C6 (as amended). No number of watchdog ticks changes the strategy index or the retry
  counter, and neither does the nudge. With an \<open>Hls\<close> instance attached the nudge does
  \<open>video.currentTime += 0.5\<close> on the element, a request to move the playback position
  forward with the increment 0.5 whose sum the element computes in double precision, and
  calls \<open>recoverMediaError\<close>; on the native path, where there is no instance, the nudge
  does nothing.
\<close>

theorem watchdog_nudge:
  "strategyIndex (run s (replicate n WatchdogTick)) = strategyIndex s \<and>
   retryCount (run s (replicate n WatchdogTick)) = retryCount s \<and>
   strategyIndex (handleStall s) = strategyIndex s \<and>
   retryCount (handleStall s) = retryCount s \<and>
   (hlsRef s \<noteq> None \<longrightarrow>
      handleStall s =
        s\<lparr>sinkLog := sinkLog s @ [VideoCurrentTimeAdd (1 / 2), HlsRecoverMediaError]\<rparr>) \<and>
   (hlsRef s = None \<longrightarrow> handleStall s = s) \<and>
   (\<not> crashed s \<and> \<not> videoPaused s \<and> videoReadyState s < 3 \<and> watchdogLoading s \<longrightarrow>
      step s WatchdogTick = handleStall s) \<and>
   (\<not> crashed s \<and> \<not> videoPaused s \<and> videoReadyState s < 3 \<and> watchdogLoading s \<and>
    hlsRef s \<noteq> None \<longrightarrow>
      run s (replicate n WatchdogTick) =
        s\<lparr>sinkLog := sinkLog s @
             concat (replicate n [VideoCurrentTimeAdd (1 / 2), HlsRecoverMediaError])\<rparr>)"
proof -
  have "strategyIndex (run s (replicate n WatchdogTick)) = strategyIndex s"
    "retryCount (run s (replicate n WatchdogTick)) = retryCount s"
    by (simp_all add: run_WatchdogTicks)
  moreover have "strategyIndex (handleStall s) = strategyIndex s"
    "retryCount (handleStall s) = retryCount s"
    by (simp_all add: handleStall_def)
  moreover have "hlsRef s \<noteq> None \<longrightarrow>
      handleStall s =
        s\<lparr>sinkLog := sinkLog s @ [VideoCurrentTimeAdd (1 / 2), HlsRecoverMediaError]\<rparr>"
    "hlsRef s = None \<longrightarrow> handleStall s = s"
    by (simp_all add: handleStall_def)
  moreover have "\<not> crashed s \<and> \<not> videoPaused s \<and> videoReadyState s < 3 \<and> watchdogLoading s \<longrightarrow>
      step s WatchdogTick = handleStall s"
    by (simp add: step_WatchdogTick handleStall_def)
  moreover have "\<not> crashed s \<and> \<not> videoPaused s \<and> videoReadyState s < 3 \<and> watchdogLoading s \<and>
    hlsRef s \<noteq> None \<longrightarrow>
      run s (replicate n WatchdogTick) =
        s\<lparr>sinkLog := sinkLog s @
             concat (replicate n [VideoCurrentTimeAdd (1 / 2), HlsRecoverMediaError])\<rparr>"
    by (simp add: run_WatchdogTicks)
  ultimately show ?thesis by blast
qed

theorem watchdog_nudge_witness:
  "\<not> crashed (run (mount None True False ''http://h/live/7'') [SinkState False 2]) \<and>
   \<not> videoPaused (run (mount None True False ''http://h/live/7'') [SinkState False 2]) \<and>
   videoReadyState (run (mount None True False ''http://h/live/7'') [SinkState False 2]) < 3 \<and>
   watchdogLoading (run (mount None True False ''http://h/live/7'') [SinkState False 2]) \<and>
   hlsRef (run (mount None True False ''http://h/live/7'') [SinkState False 2]) \<noteq> None \<and>
   sinkLog (run (run (mount None True False ''http://h/live/7'') [SinkState False 2])
      (replicate 2 WatchdogTick)) =
     [HlsLoadSource ''http://h/live/7.m3u8'', HlsAttachMedia,
      VideoCurrentTimeAdd (1 / 2), HlsRecoverMediaError,
      VideoCurrentTimeAdd (1 / 2), HlsRecoverMediaError] \<and>
   strategyIndex (run (run (mount None True False ''http://h/live/7'') [SinkState False 2])
      (replicate 2 WatchdogTick)) = 0 \<and>
   retryCount (run (run (mount None True False ''http://h/live/7'') [SinkState False 2])
      (replicate 2 WatchdogTick)) = 0"
proof -
  let ?S = "(run (mount None True False ''http://h/live/7'') [SinkState False 2])"
  have h: "\<not> crashed ?S \<and> \<not> videoPaused ?S \<and> videoReadyState ?S < 3 \<and> watchdogLoading ?S \<and>
           hlsRef ?S \<noteq> None" by code_simp
  have v: "strategyIndex ?S = 0" "retryCount ?S = 0"
    "sinkLog ?S = [HlsLoadSource ''http://h/live/7.m3u8'', HlsAttachMedia]" by code_simp+
  from watchdog_nudge [of ?S 2] h v show ?thesis
    by (simp add: numeral_2_eq_2)
qed

text \<open>
  C6 as stated fails: at the Native strategy the watchdog finds the stall, and its nudge
  neither touches the playback position nor calls the sink.
\<close>

theorem watchdog_nudge_native_counterexample:
  "\<not> crashed (run (mount None True False ''http://h/live/7'')
       [HlsError True OTHER_ERROR, HlsError True OTHER_ERROR, HlsError True OTHER_ERROR,
        SinkState False 0]) \<and>
   \<not> videoPaused (run (mount None True False ''http://h/live/7'')
       [HlsError True OTHER_ERROR, HlsError True OTHER_ERROR, HlsError True OTHER_ERROR,
        SinkState False 0]) \<and>
   videoReadyState (run (mount None True False ''http://h/live/7'')
       [HlsError True OTHER_ERROR, HlsError True OTHER_ERROR, HlsError True OTHER_ERROR,
        SinkState False 0]) < 3 \<and>
   watchdogLoading (run (mount None True False ''http://h/live/7'')
       [HlsError True OTHER_ERROR, HlsError True OTHER_ERROR, HlsError True OTHER_ERROR,
        SinkState False 0]) \<and>
   strategyIndex (run (mount None True False ''http://h/live/7'')
       [HlsError True OTHER_ERROR, HlsError True OTHER_ERROR, HlsError True OTHER_ERROR,
        SinkState False 0]) = 3 \<and>
   hlsRef (run (mount None True False ''http://h/live/7'')
       [HlsError True OTHER_ERROR, HlsError True OTHER_ERROR, HlsError True OTHER_ERROR,
        SinkState False 0]) = None \<and>
   handleStall (run (mount None True False ''http://h/live/7'')
       [HlsError True OTHER_ERROR, HlsError True OTHER_ERROR, HlsError True OTHER_ERROR,
        SinkState False 0]) =
   (run (mount None True False ''http://h/live/7'')
       [HlsError True OTHER_ERROR, HlsError True OTHER_ERROR, HlsError True OTHER_ERROR,
        SinkState False 0]) \<and>
   sinkLog (step (run (mount None True False ''http://h/live/7'')
       [HlsError True OTHER_ERROR, HlsError True OTHER_ERROR, HlsError True OTHER_ERROR,
        SinkState False 0]) WatchdogTick) =
   sinkLog (run (mount None True False ''http://h/live/7'')
       [HlsError True OTHER_ERROR, HlsError True OTHER_ERROR, HlsError True OTHER_ERROR,
        SinkState False 0])"
  by code_simp


section \<open>Watch history\<close>

lemma addToHistory_eq:
  "addToHistory channel prev = take 50 (channel # filter (\<lambda>c. chId c \<noteq> chId channel) prev)"
  by (simp add: addToHistory_def Let_def)

lemma filter_ids:
  "map chId (filter (\<lambda>c. chId c \<noteq> k) prev) = filter (\<lambda>i. i \<noteq> k) (map chId prev)"
  by (induction prev) auto

lemma addToHistory_ids:
  "map chId (addToHistory channel prev) =
     take 50 (chId channel # filter (\<lambda>i. i \<noteq> chId channel) (map chId prev))"
  by (simp only: addToHistory_eq take_map [symmetric] list.map filter_ids)

lemma addToHistory_distinct:
  "distinct (map chId prev) \<Longrightarrow> distinct (map chId (addToHistory channel prev))"
  unfolding addToHistory_ids by (rule distinct_take) simp

lemma history_reachable_distinct:
  "distinct (map chId (foldl (\<lambda>h c. addToHistory c h) [] played))"
proof -
  have "distinct (map chId h) \<Longrightarrow> distinct (map chId (foldl (\<lambda>h c. addToHistory c h) h played))"
    for h
    by (induction played arbitrary: h) (simp_all add: addToHistory_distinct)
  then show ?thesis by simp
qed

lemma count_list_filter_neq: "count_list (filter (\<lambda>i. i \<noteq> k) xs) k = 0"
  by (induction xs) auto

lemma count_list_take_zero: "count_list xs k = 0 \<Longrightarrow> count_list (take n xs) k = 0"
  by (metis count_list_0_iff in_set_takeD)

lemma addToHistory_once: "count_list (map chId (addToHistory channel prev)) (chId channel) = 1"
proof -
  have "take 50 (chId channel # filter (\<lambda>i. i \<noteq> chId channel) (map chId prev)) =
        chId channel # take 49 (filter (\<lambda>i. i \<noteq> chId channel) (map chId prev))"
    by simp
  then show ?thesis
    by (simp add: addToHistory_ids count_list_take_zero count_list_filter_neq del: take_Cons_numeral)
qed

lemma addToHistory_no_growth:
  assumes "chId channel \<in> set (map chId prev)"
  shows "length (addToHistory channel prev) \<le> length prev"
proof -
  from assms obtain c where c: "c \<in> set prev" "\<not> chId c \<noteq> chId channel" by auto
  then have "length (filter (\<lambda>c. chId c \<noteq> chId channel) prev) < length prev"
    by (rule length_filter_less)
  then show ?thesis by (simp add: addToHistory_eq del: take_Cons_numeral)
qed

text \<open>
  C9 (as amended). For every channel played and every prior history, the updated history
  has that channel at the front, holds its id exactly once and has at most 50 entries. It
  has no duplicate ids whenever the prior history has none, so every history built from
  the empty one has none. Adding a channel whose id is already in the history does not
  make the list longer.
\<close>

theorem addToHistory_front_bounded:
  "hd (addToHistory channel prev) = channel \<and>
   length (addToHistory channel prev) \<le> 50 \<and>
   count_list (map chId (addToHistory channel prev)) (chId channel) = 1 \<and>
   (distinct (map chId prev) \<longrightarrow> distinct (map chId (addToHistory channel prev))) \<and>
   distinct (map chId (foldl (\<lambda>h c. addToHistory c h) [] played)) \<and>
   (chId channel \<in> set (map chId prev) \<longrightarrow>
      length (addToHistory channel prev) \<le> length prev)"
proof -
  have "hd (addToHistory channel prev) = channel"
    by (simp add: addToHistory_eq)
  moreover have "length (addToHistory channel prev) \<le> 50"
    by (simp add: addToHistory_eq del: take_Cons_numeral)
  ultimately show ?thesis
    using addToHistory_once addToHistory_distinct history_reachable_distinct
      addToHistory_no_growth
    by blast
qed

theorem addToHistory_front_bounded_witness:
  "distinct (map chId [\<lparr>chId = ''a'', chName = ''News'', chLogo = None, chGroup = None,
       chUrl = ''http://h/a'', chType = LIVE\<rparr>,
      \<lparr>chId = ''b'', chName = ''Sport'', chLogo = None, chGroup = None,
       chUrl = ''http://h/b'', chType = LIVE\<rparr>]) \<and>
   chId \<lparr>chId = ''b'', chName = ''Sport HD'', chLogo = None, chGroup = None,
       chUrl = ''http://h/b'', chType = LIVE\<rparr> \<in> set (map chId [\<lparr>chId = ''a'', chName = ''News'', chLogo = None, chGroup = None,
       chUrl = ''http://h/a'', chType = LIVE\<rparr>,
      \<lparr>chId = ''b'', chName = ''Sport'', chLogo = None, chGroup = None,
       chUrl = ''http://h/b'', chType = LIVE\<rparr>]) \<and>
   addToHistory \<lparr>chId = ''b'', chName = ''Sport HD'', chLogo = None, chGroup = None,
       chUrl = ''http://h/b'', chType = LIVE\<rparr>
     [\<lparr>chId = ''a'', chName = ''News'', chLogo = None, chGroup = None,
       chUrl = ''http://h/a'', chType = LIVE\<rparr>,
      \<lparr>chId = ''b'', chName = ''Sport'', chLogo = None, chGroup = None,
       chUrl = ''http://h/b'', chType = LIVE\<rparr>] =
     [\<lparr>chId = ''b'', chName = ''Sport HD'', chLogo = None, chGroup = None,
       chUrl = ''http://h/b'', chType = LIVE\<rparr>,
      \<lparr>chId = ''a'', chName = ''News'', chLogo = None, chGroup = None,
       chUrl = ''http://h/a'', chType = LIVE\<rparr>] \<and>
   distinct (map chId (addToHistory \<lparr>chId = ''b'', chName = ''Sport HD'', chLogo = None, chGroup = None,
       chUrl = ''http://h/b'', chType = LIVE\<rparr>
     [\<lparr>chId = ''a'', chName = ''News'', chLogo = None, chGroup = None,
       chUrl = ''http://h/a'', chType = LIVE\<rparr>,
      \<lparr>chId = ''b'', chName = ''Sport'', chLogo = None, chGroup = None,
       chUrl = ''http://h/b'', chType = LIVE\<rparr>]))"
  using addToHistory_front_bounded [of "\<lparr>chId = ''b'', chName = ''Sport HD'', chLogo = None, chGroup = None,
       chUrl = ''http://h/b'', chType = LIVE\<rparr>"
     "[\<lparr>chId = ''a'', chName = ''News'', chLogo = None, chGroup = None,
       chUrl = ''http://h/a'', chType = LIVE\<rparr>,
      \<lparr>chId = ''b'', chName = ''Sport'', chLogo = None, chGroup = None,
       chUrl = ''http://h/b'', chType = LIVE\<rparr>]" "[]"]
  by (simp add: addToHistory_def)

text \<open>
  C9 as stated fails for a prior history that already holds an id twice: only the entries
  with the id of the played channel are filtered out.
\<close>

theorem addToHistory_duplicates_counterexample:
  "map chId (addToHistory \<lparr>chId = ''b'', chName = ''Sport'', chLogo = None, chGroup = None,
       chUrl = ''http://h/b'', chType = LIVE\<rparr>
     [\<lparr>chId = ''a'', chName = ''News'', chLogo = None, chGroup = None,
       chUrl = ''http://h/a'', chType = LIVE\<rparr>,
      \<lparr>chId = ''a'', chName = ''News HD'', chLogo = None, chGroup = None,
       chUrl = ''http://h/a'', chType = LIVE\<rparr>]) = [''b'', ''a'', ''a''] \<and>
   \<not> distinct (map chId (addToHistory \<lparr>chId = ''b'', chName = ''Sport'', chLogo = None, chGroup = None,
       chUrl = ''http://h/b'', chType = LIVE\<rparr>
     [\<lparr>chId = ''a'', chName = ''News'', chLogo = None, chGroup = None,
       chUrl = ''http://h/a'', chType = LIVE\<rparr>,
      \<lparr>chId = ''a'', chName = ''News HD'', chLogo = None, chGroup = None,
       chUrl = ''http://h/a'', chType = LIVE\<rparr>]))"
  by (simp add: addToHistory_def)


section \<open>Series grouping\<close>

lemma upd_keys:
  "map fst (map (\<lambda>(k, v). if k = key then (k, f v) else (k, v)) xs) = map fst xs"
  by (induction xs) auto

lemma upd_absent:
  "key \<notin> set (map fst xs) \<Longrightarrow>
   map (\<lambda>(k, v). if k = key then (k, f v) else (k, v)) xs = xs"
  by (induction xs) auto

lemma upd_mset:
  assumes "distinct (map fst xs)" and "key \<in> set (map fst xs)"
    and "\<And>v. (key, v) \<in> set xs \<Longrightarrow> mset (g (f v)) = mset (g v) + {#c#}"
  shows "mset (concat (map (\<lambda>(k, v). g v)
            (map (\<lambda>(k, v). if k = key then (k, f v) else (k, v)) xs))) =
         mset (concat (map (\<lambda>(k, v). g v) xs)) + {#c#}"
  using assms
proof (induction xs)
  case Nil
  then show ?case by simp
next
  case (Cons x xs)
  obtain k v where x: "x = (k, v)" by (cases x)
  show ?case
  proof (cases "k = key")
    case True
    with Cons.prems(1) x have "key \<notin> set (map fst xs)" by simp
    then have "map (\<lambda>(k, v). if k = key then (k, f v) else (k, v)) xs = xs"
      by (rule upd_absent)
    moreover have "mset (g (f v)) = mset (g v) + {#c#}"
      using Cons.prems(3) [of v] True x by simp
    ultimately show ?thesis using True x by simp
  next
    case False
    with Cons.prems x have "distinct (map fst xs)" "key \<in> set (map fst xs)" by auto
    moreover have "\<And>v. (key, v) \<in> set xs \<Longrightarrow> mset (g (f v)) = mset (g v) + {#c#}"
      using Cons.prems(3) by simp
    ultimately have "mset (concat (map (\<lambda>(k, v). g v)
            (map (\<lambda>(k, v). if k = key then (k, f v) else (k, v)) xs))) =
         mset (concat (map (\<lambda>(k, v). g v) xs)) + {#c#}"
      by (rule Cons.IH)
    with False x show ?thesis by simp
  qed
qed

lemma upd_set:
  assumes "(k, w) \<in> set (map (\<lambda>(k, v). if k = key then (k, f v) else (k, v)) xs)"
  shows "(k \<noteq> key \<and> (k, w) \<in> set xs) \<or> (k = key \<and> (\<exists>v. (key, v) \<in> set xs \<and> w = f v))"
  using assms by (induction xs) (auto split: if_splits)

lemma episodes_alt: "episodes sr = concat (map (\<lambda>(k, v). v) (seasons sr))"
  by (simp add: episodes_def split_def)

text \<open>The seasons of a series after one more episode.\<close>

lemma addEpisode_seasons:
  "seasons (addEpisode season channel sr) =
     map (\<lambda>(k, v). if k = season then (k, v @ [channel]) else (k, v))
       (if season \<in> set (map fst (seasons sr)) then seasons sr
        else seasons sr @ [(season, [])])"
  by (simp add: addEpisode_def Let_def map_of_eq_None_iff image_iff split_def)

lemma addEpisode_fields:
  "serId (addEpisode season channel sr) = serId sr"
  "episodeCount (addEpisode season channel sr) = episodeCount sr + 1"
  by (simp_all add: addEpisode_def Let_def)

lemma addEpisode_distinct:
  "distinct (map fst (seasons sr)) \<Longrightarrow> distinct (map fst (seasons (addEpisode season channel sr)))"
  unfolding addEpisode_seasons upd_keys by simp

lemma addEpisode_mset:
  assumes "distinct (map fst (seasons sr))"
  shows "mset (episodes (addEpisode season channel sr)) = mset (episodes sr) + {#channel#}"
proof -
  let ?xs = "if season \<in> set (map fst (seasons sr)) then seasons sr
        else seasons sr @ [(season, [])]"
  have d: "distinct (map fst ?xs)" using assms by simp
  have m: "season \<in> set (map fst ?xs)" by simp
  have "mset (concat (map (\<lambda>(k, v). v)
            (map (\<lambda>(k, v). if k = season then (k, v @ [channel]) else (k, v)) ?xs))) =
         mset (concat (map (\<lambda>(k, v). v) ?xs)) + {#channel#}"
    using d m by (rule upd_mset) simp
  moreover have "concat (map (\<lambda>(k, v). v) ?xs) = concat (map (\<lambda>(k, v). v) (seasons sr))"
    by simp
  ultimately show ?thesis
    by (simp only: episodes_alt addEpisode_seasons)
qed

lemma addEpisode_place:
  assumes "\<forall>(se, b) \<in> set (seasons sr). \<forall>x \<in> set b. P x se" and "P channel season"
  shows "\<forall>(se, b) \<in> set (seasons (addEpisode season channel sr)). \<forall>x \<in> set b. P x se"
proof (clarify)
  fix se b x
  assume in_new: "(se, b) \<in> set (seasons (addEpisode season channel sr))" and x: "x \<in> set b"
  let ?xs = "if season \<in> set (map fst (seasons sr)) then seasons sr
        else seasons sr @ [(season, [])]"
  from in_new have "(se, b) \<in> set (map (\<lambda>(k, v). if k = season then (k, v @ [channel]) else (k, v)) ?xs)"
    by (simp only: addEpisode_seasons)
  then have "(se \<noteq> season \<and> (se, b) \<in> set ?xs) \<or>
             (se = season \<and> (\<exists>v. (season, v) \<in> set ?xs \<and> b = v @ [channel]))"
    by (rule upd_set)
  then show "P x se"
  proof
    assume "se \<noteq> season \<and> (se, b) \<in> set ?xs"
    then have "(se, b) \<in> set (seasons sr)" by (auto split: if_splits)
    with assms(1) x show ?thesis by auto
  next
    assume "se = season \<and> (\<exists>v. (season, v) \<in> set ?xs \<and> b = v @ [channel])"
    then obtain v where se: "se = season" and v: "(season, v) \<in> set ?xs" and b: "b = v @ [channel]"
      by blast
    from v have "(season, v) \<in> set (seasons sr) \<or> v = []" by (auto split: if_splits)
    with assms x b se show ?thesis by auto
  qed
qed

lemma processChannel_eq:
  "processChannel ts m c =
     map (\<lambda>(k, v). if k = seriesIdOf ts c then (k, addEpisode (snd (seriesKey ts c)) c v)
                     else (k, v))
       (if seriesIdOf ts c \<in> set (map fst m) then m
        else m @ [(seriesIdOf ts c, newSeries (seriesIdOf ts c) (fst (seriesKey ts c)) c)])"
  by (simp add: processChannel_def Let_def map_of_eq_None_iff image_iff split_def)

lemma seriesOk_new: "seriesOk ts sid (newSeries sid nm c)"
  by (simp add: seriesOk_def newSeries_def episodes_def)

lemma seriesOk_add:
  assumes "seriesOk ts (seriesIdOf ts c) sr"
  shows "seriesOk ts (seriesIdOf ts c) (addEpisode (snd (seriesKey ts c)) c sr)"
proof -
  let ?a = "addEpisode (snd (seriesKey ts c)) c sr"
  from assms have d: "distinct (map fst (seasons sr))"
    and n: "episodeCount sr = length (episodes sr)"
    and i: "serId sr = seriesIdOf ts c"
    and pl: "\<forall>(season, b) \<in> set (seasons sr). \<forall>x \<in> set b.
        seriesIdOf ts x = seriesIdOf ts c \<and> snd (seriesKey ts x) = season"
    by (simp_all add: seriesOk_def)
  have "size (mset (episodes ?a)) = size (mset (episodes sr) + {#c#})"
    using d by (simp only: addEpisode_mset)
  then have "length (episodes ?a) = length (episodes sr) + 1" by simp
  with n have "episodeCount ?a = length (episodes ?a)" by (simp add: addEpisode_fields)
  moreover have "distinct (map fst (seasons ?a))" using d by (rule addEpisode_distinct)
  moreover have "serId ?a = seriesIdOf ts c" using i by (simp add: addEpisode_fields)
  moreover have "\<forall>(season, b) \<in> set (seasons ?a). \<forall>x \<in> set b.
        seriesIdOf ts x = seriesIdOf ts c \<and> snd (seriesKey ts x) = season"
    using pl by (rule addEpisode_place) simp
  ultimately show ?thesis by (simp add: seriesOk_def)
qed

lemma processChannel_inv:
  assumes "seriesInv ts m"
  shows "seriesInv ts (processChannel ts m c)"
proof -
  let ?sid = "seriesIdOf ts c"
  let ?m1 = "if ?sid \<in> set (map fst m) then m
        else m @ [(?sid, newSeries ?sid (fst (seriesKey ts c)) c)]"
  from assms have d: "distinct (map fst m)"
    and ok: "\<And>k sr. (k, sr) \<in> set m \<Longrightarrow> seriesOk ts k sr"
    by (auto simp: seriesInv_def)
  have d1: "distinct (map fst ?m1)" using d by simp
  have ok1: "seriesOk ts k sr" if "(k, sr) \<in> set ?m1" for k sr
    using that ok seriesOk_new by (auto split: if_splits)
  have "distinct (map fst (processChannel ts m c))"
    unfolding processChannel_eq upd_keys by (rule d1)
  moreover have "seriesOk ts k sr" if "(k, sr) \<in> set (processChannel ts m c)" for k sr
  proof -
    from that have "(k \<noteq> ?sid \<and> (k, sr) \<in> set ?m1) \<or>
        (k = ?sid \<and> (\<exists>v. (?sid, v) \<in> set ?m1 \<and> sr = addEpisode (snd (seriesKey ts c)) c v))"
      unfolding processChannel_eq by (rule upd_set)
    then show ?thesis
    proof
      assume "k \<noteq> ?sid \<and> (k, sr) \<in> set ?m1"
      then show ?thesis using ok1 by blast
    next
      assume "k = ?sid \<and> (\<exists>v. (?sid, v) \<in> set ?m1 \<and> sr = addEpisode (snd (seriesKey ts c)) c v)"
      then obtain v where k: "k = ?sid" and v: "(?sid, v) \<in> set ?m1"
        and sr: "sr = addEpisode (snd (seriesKey ts c)) c v" by blast
      from v have "seriesOk ts ?sid v" by (rule ok1)
      then show ?thesis unfolding k sr by (rule seriesOk_add)
    qed
  qed
  ultimately show ?thesis by (auto simp: seriesInv_def)
qed

lemma processChannel_mset:
  assumes "seriesInv ts m"
  shows "mset (concat (map (\<lambda>(k, v). episodes v) (processChannel ts m c))) =
         mset (concat (map (\<lambda>(k, v). episodes v) m)) + {#c#}"
proof -
  let ?sid = "seriesIdOf ts c"
  let ?m1 = "if ?sid \<in> set (map fst m) then m
        else m @ [(?sid, newSeries ?sid (fst (seriesKey ts c)) c)]"
  from assms have d: "distinct (map fst m)"
    and ok: "\<And>k sr. (k, sr) \<in> set m \<Longrightarrow> seriesOk ts k sr"
    by (auto simp: seriesInv_def)
  have d1: "distinct (map fst ?m1)" using d by simp
  have m1: "?sid \<in> set (map fst ?m1)" by simp
  have ok1: "seriesOk ts k sr" if "(k, sr) \<in> set ?m1" for k sr
    using that ok seriesOk_new by (auto split: if_splits)
  have "mset (concat (map (\<lambda>(k, v). episodes v)
            (map (\<lambda>(k, v). if k = ?sid then (k, addEpisode (snd (seriesKey ts c)) c v)
                            else (k, v)) ?m1))) =
         mset (concat (map (\<lambda>(k, v). episodes v) ?m1)) + {#c#}"
    using d1 m1
  proof (rule upd_mset)
    fix v assume "(?sid, v) \<in> set ?m1"
    then have "seriesOk ts ?sid v" by (rule ok1)
    then have "distinct (map fst (seasons v))" by (simp add: seriesOk_def)
    then show "mset (episodes (addEpisode (snd (seriesKey ts c)) c v)) = mset (episodes v) + {#c#}"
      by (rule addEpisode_mset)
  qed
  moreover have "concat (map (\<lambda>(k, v). episodes v) ?m1) = concat (map (\<lambda>(k, v). episodes v) m)"
    by (simp add: newSeries_def episodes_def)
  ultimately show ?thesis by (simp only: processChannel_eq)
qed

lemma foldl_processChannel:
  assumes "seriesInv ts m"
  shows "seriesInv ts (foldl (processChannel ts) m chs) \<and>
         mset (concat (map (\<lambda>(k, v). episodes v) (foldl (processChannel ts) m chs))) =
         mset (concat (map (\<lambda>(k, v). episodes v) m)) + mset chs"
  using assms
proof (induction chs arbitrary: m)
  case Nil
  then show ?case by simp
next
  case (Cons c chs)
  from Cons.prems have i: "seriesInv ts (processChannel ts m c)" by (rule processChannel_inv)
  from Cons.IH [OF i] processChannel_mset [OF Cons.prems, of c]
  show ?case by simp
qed

lemma seriesInv_empty: "seriesInv ts []"
  by (simp add: seriesInv_def)

text \<open>
  C10. \<open>processSeries\<close> partitions its input, whatever the season normalisation: the
  channels stored under all seasons of all returned series are, as a multiset, the input
  channels; the returned series have distinct ids and each has distinct season keys, so
  every input channel lies in exactly one season bucket of exactly one series (the one its
  name gives); the \<open>episodeCount\<close> of a series is the number of channels under its
  seasons; and the counts add up to the length of the input.
\<close>

theorem processSeries_partition:
  "mset (concat (map episodes (processSeries ts chs))) = mset chs \<and>
   distinct (map serId (processSeries ts chs)) \<and>
   (\<forall>sr \<in> set (processSeries ts chs).
      distinct (map fst (seasons sr)) \<and> episodeCount sr = length (episodes sr) \<and>
      (\<forall>(season, b) \<in> set (seasons sr). \<forall>c \<in> set b.
         seriesIdOf ts c = serId sr \<and> snd (seriesKey ts c) = season)) \<and>
   (\<forall>c \<in> set chs.
      \<exists>!t. fst t \<in> set (processSeries ts chs) \<and> snd t \<in> set (seasons (fst t)) \<and>
           c \<in> set (snd (snd t))) \<and>
   sum_list (map episodeCount (processSeries ts chs)) = length chs"
proof -
  define M where "M = foldl (processChannel ts) [] chs"
  define R where "R = processSeries ts chs"
  have R: "R = map snd M" by (simp add: R_def M_def processSeries_def)
  have inv: "seriesInv ts M"
    and ms: "mset (concat (map (\<lambda>(k, v). episodes v) M)) = mset chs"
    using foldl_processChannel [OF seriesInv_empty, of ts chs] by (simp_all add: M_def)
  from inv have dM: "distinct (map fst M)"
    and ok: "\<And>k sr. (k, sr) \<in> set M \<Longrightarrow> seriesOk ts k sr"
    by (auto simp: seriesInv_def)
  have all: "mset (concat (map episodes R)) = mset chs"
    using ms by (simp add: R split_def comp_def)
  have ids: "map serId R = map fst M"
    unfolding R using ok by (auto simp: seriesOk_def)
  have dR: "distinct (map serId R)" using dM by (simp add: ids)
  have okR: "seriesOk ts (serId sr) sr" if "sr \<in> set R" for sr
  proof -
    from that obtain k where k: "(k, sr) \<in> set M" unfolding R by auto
    then have "seriesOk ts k sr" by (rule ok)
    then show ?thesis by (simp add: seriesOk_def)
  qed
  have wf: "distinct (map fst (seasons sr)) \<and> episodeCount sr = length (episodes sr) \<and>
      (\<forall>(season, b) \<in> set (seasons sr). \<forall>c \<in> set b.
         seriesIdOf ts c = serId sr \<and> snd (seriesKey ts c) = season)"
    if "sr \<in> set R" for sr
    using okR [OF that] by (simp add: seriesOk_def)
  have one: "\<exists>!t. fst t \<in> set R \<and> snd t \<in> set (seasons (fst t)) \<and> c \<in> set (snd (snd t))"
    if c: "c \<in> set chs" for c
  proof (rule ex_ex1I)
    from c have "c \<in># mset (concat (map episodes R))" by (simp only: all set_mset_mset)
    then have "c \<in> set (concat (map episodes R))" by simp
    then obtain sr where sr: "sr \<in> set R" "c \<in> set (episodes sr)" by auto
    then obtain sb where sb: "sb \<in> set (seasons sr)" "c \<in> set (snd sb)"
      by (auto simp: episodes_def)
    with sr have "fst (sr, sb) \<in> set R \<and> snd (sr, sb) \<in> set (seasons (fst (sr, sb))) \<and>
        c \<in> set (snd (snd (sr, sb)))" by simp
    then show "\<exists>t. fst t \<in> set R \<and> snd t \<in> set (seasons (fst t)) \<and> c \<in> set (snd (snd t))"
      by blast
  next
    fix t u
    assume t: "fst t \<in> set R \<and> snd t \<in> set (seasons (fst t)) \<and> c \<in> set (snd (snd t))"
      and u: "fst u \<in> set R \<and> snd u \<in> set (seasons (fst u)) \<and> c \<in> set (snd (snd u))"
    obtain sr se b where t': "t = (sr, se, b)" by (cases t) auto
    obtain sr' se' b' where u': "u = (sr', se', b')" by (cases u) auto
    from t t' have t1: "sr \<in> set R" "(se, b) \<in> set (seasons sr)" "c \<in> set b" by simp_all
    from u u' have u1: "sr' \<in> set R" "(se', b') \<in> set (seasons sr')" "c \<in> set b'" by simp_all
    from wf [OF t1(1)] t1(2,3) have t2: "seriesIdOf ts c = serId sr" "snd (seriesKey ts c) = se"
      by auto
    from wf [OF u1(1)] u1(2,3) have u2: "seriesIdOf ts c = serId sr'" "snd (seriesKey ts c) = se'"
      by auto
    from dR have "inj_on serId (set R)" by (simp add: distinct_map)
    with t1(1) u1(1) t2(1) u2(1) have s: "sr = sr'" by (auto dest: inj_onD)
    from wf [OF t1(1)] have i: "inj_on fst (set (seasons sr))" by (simp add: distinct_map)
    from t2(2) u2(2) have f: "fst (se, b) = fst (se', b')" by simp
    from u1(2) s have m: "(se', b') \<in> set (seasons sr)" by simp
    from i f t1(2) m have "(se, b) = (se', b')" by (rule inj_onD)
    with s show "t = u" by (simp add: t' u')
  qed
  have "sum_list (map episodeCount R) = sum_list (map (\<lambda>sr. length (episodes sr)) R)"
    using wf by (intro arg_cong [where f = sum_list] map_cong) auto
  also have "\<dots> = length (concat (map episodes R))"
    by (simp add: length_concat comp_def)
  also have "\<dots> = size (mset (concat (map episodes R)))" by simp
  also have "\<dots> = length chs" by (simp only: all size_mset)
  finally have total: "sum_list (map episodeCount R) = length chs" .
  from all dR wf one total show ?thesis
    unfolding R_def by blast
qed

theorem processSeries_partition_witness:
  "map serId (processSeries decimalNorm
     [\<lparr>chId = ''1'', chName = ''Breaking Bad - S01E05'', chLogo = None, chGroup = Some ''Series'',
       chUrl = ''http://h/1'', chType = SERIES\<rparr>,
      \<lparr>chId = ''2'', chName = ''Lost 2x03'', chLogo = Some ''l.png'', chGroup = None,
       chUrl = ''http://h/2'', chType = SERIES\<rparr>,
      \<lparr>chId = ''3'', chName = ''Breaking Bad S1 E06'', chLogo = Some ''b.png'', chGroup = Some ''Series'',
       chUrl = ''http://h/3'', chType = SERIES\<rparr>,
      \<lparr>chId = ''4'', chName = ''Breaking Bad S02E01'', chLogo = Some ''c.png'', chGroup = Some ''Series'',
       chUrl = ''http://h/4'', chType = SERIES\<rparr>]) = [''Series-Breaking Bad'', ''undefined-Lost''] \<and>
   map episodeCount (processSeries decimalNorm
     [\<lparr>chId = ''1'', chName = ''Breaking Bad - S01E05'', chLogo = None, chGroup = Some ''Series'',
       chUrl = ''http://h/1'', chType = SERIES\<rparr>,
      \<lparr>chId = ''2'', chName = ''Lost 2x03'', chLogo = Some ''l.png'', chGroup = None,
       chUrl = ''http://h/2'', chType = SERIES\<rparr>,
      \<lparr>chId = ''3'', chName = ''Breaking Bad S1 E06'', chLogo = Some ''b.png'', chGroup = Some ''Series'',
       chUrl = ''http://h/3'', chType = SERIES\<rparr>,
      \<lparr>chId = ''4'', chName = ''Breaking Bad S02E01'', chLogo = Some ''c.png'', chGroup = Some ''Series'',
       chUrl = ''http://h/4'', chType = SERIES\<rparr>]) = [3, 1] \<and>
   map (map fst \<circ> seasons) (processSeries decimalNorm
     [\<lparr>chId = ''1'', chName = ''Breaking Bad - S01E05'', chLogo = None, chGroup = Some ''Series'',
       chUrl = ''http://h/1'', chType = SERIES\<rparr>,
      \<lparr>chId = ''2'', chName = ''Lost 2x03'', chLogo = Some ''l.png'', chGroup = None,
       chUrl = ''http://h/2'', chType = SERIES\<rparr>,
      \<lparr>chId = ''3'', chName = ''Breaking Bad S1 E06'', chLogo = Some ''b.png'', chGroup = Some ''Series'',
       chUrl = ''http://h/3'', chType = SERIES\<rparr>,
      \<lparr>chId = ''4'', chName = ''Breaking Bad S02E01'', chLogo = Some ''c.png'', chGroup = Some ''Series'',
       chUrl = ''http://h/4'', chType = SERIES\<rparr>]) = [[''1'', ''2''], [''2'']] \<and>
   mset (concat (map episodes (processSeries decimalNorm
     [\<lparr>chId = ''1'', chName = ''Breaking Bad - S01E05'', chLogo = None, chGroup = Some ''Series'',
       chUrl = ''http://h/1'', chType = SERIES\<rparr>,
      \<lparr>chId = ''2'', chName = ''Lost 2x03'', chLogo = Some ''l.png'', chGroup = None,
       chUrl = ''http://h/2'', chType = SERIES\<rparr>,
      \<lparr>chId = ''3'', chName = ''Breaking Bad S1 E06'', chLogo = Some ''b.png'', chGroup = Some ''Series'',
       chUrl = ''http://h/3'', chType = SERIES\<rparr>,
      \<lparr>chId = ''4'', chName = ''Breaking Bad S02E01'', chLogo = Some ''c.png'', chGroup = Some ''Series'',
       chUrl = ''http://h/4'', chType = SERIES\<rparr>]))) =
   mset [\<lparr>chId = ''1'', chName = ''Breaking Bad - S01E05'', chLogo = None, chGroup = Some ''Series'',
       chUrl = ''http://h/1'', chType = SERIES\<rparr>,
      \<lparr>chId = ''2'', chName = ''Lost 2x03'', chLogo = Some ''l.png'', chGroup = None,
       chUrl = ''http://h/2'', chType = SERIES\<rparr>,
      \<lparr>chId = ''3'', chName = ''Breaking Bad S1 E06'', chLogo = Some ''b.png'', chGroup = Some ''Series'',
       chUrl = ''http://h/3'', chType = SERIES\<rparr>,
      \<lparr>chId = ''4'', chName = ''Breaking Bad S02E01'', chLogo = Some ''c.png'', chGroup = Some ''Series'',
       chUrl = ''http://h/4'', chType = SERIES\<rparr>] \<and>
   sum_list (map episodeCount (processSeries decimalNorm
     [\<lparr>chId = ''1'', chName = ''Breaking Bad - S01E05'', chLogo = None, chGroup = Some ''Series'',
       chUrl = ''http://h/1'', chType = SERIES\<rparr>,
      \<lparr>chId = ''2'', chName = ''Lost 2x03'', chLogo = Some ''l.png'', chGroup = None,
       chUrl = ''http://h/2'', chType = SERIES\<rparr>,
      \<lparr>chId = ''3'', chName = ''Breaking Bad S1 E06'', chLogo = Some ''b.png'', chGroup = Some ''Series'',
       chUrl = ''http://h/3'', chType = SERIES\<rparr>,
      \<lparr>chId = ''4'', chName = ''Breaking Bad S02E01'', chLogo = Some ''c.png'', chGroup = Some ''Series'',
       chUrl = ''http://h/4'', chType = SERIES\<rparr>])) = 4"
proof -
  let ?chs = "[\<lparr>chId = ''1'', chName = ''Breaking Bad - S01E05'', chLogo = None, chGroup = Some ''Series'',
       chUrl = ''http://h/1'', chType = SERIES\<rparr>,
      \<lparr>chId = ''2'', chName = ''Lost 2x03'', chLogo = Some ''l.png'', chGroup = None,
       chUrl = ''http://h/2'', chType = SERIES\<rparr>,
      \<lparr>chId = ''3'', chName = ''Breaking Bad S1 E06'', chLogo = Some ''b.png'', chGroup = Some ''Series'',
       chUrl = ''http://h/3'', chType = SERIES\<rparr>,
      \<lparr>chId = ''4'', chName = ''Breaking Bad S02E01'', chLogo = Some ''c.png'', chGroup = Some ''Series'',
       chUrl = ''http://h/4'', chType = SERIES\<rparr>]"
  have e: "map serId (processSeries decimalNorm ?chs) = [''Series-Breaking Bad'', ''undefined-Lost'']"
    "map episodeCount (processSeries decimalNorm ?chs) = [3, 1]"
    "map (map fst \<circ> seasons) (processSeries decimalNorm ?chs) = [[''1'', ''2''], [''2'']]"
    by code_simp+
  from processSeries_partition [of decimalNorm ?chs] e show ?thesis by simp
qed

end
